theory Spec2Isabelle
  imports Main "HOL-Library.Word"
begin

unbundle bit_operations_syntax

section \<open>Data model (nbt.h)\<close>

type_synonym byte = "8 word"

text \<open>
  \<^verbatim>\<open>Utf8String\<close> has the single field \<^verbatim>\<open>data\<close>, a vector of unsigned chars, and
  compares byte-wise; it is modelled by that vector.
\<close>

type_synonym Utf8String = "byte list"

type_synonym TagTypeId = "8 word"

definition TAG_TYPE_END :: TagTypeId where "TAG_TYPE_END = 0"
definition TAG_TYPE_BYTE :: TagTypeId where "TAG_TYPE_BYTE = 1"
definition TAG_TYPE_SHORT :: TagTypeId where "TAG_TYPE_SHORT = 2"
definition TAG_TYPE_INT :: TagTypeId where "TAG_TYPE_INT = 3"
definition TAG_TYPE_LONG :: TagTypeId where "TAG_TYPE_LONG = 4"
definition TAG_TYPE_FLOAT :: TagTypeId where "TAG_TYPE_FLOAT = 5"
definition TAG_TYPE_DOUBLE :: TagTypeId where "TAG_TYPE_DOUBLE = 6"
definition TAG_TYPE_BYTE_ARRAY :: TagTypeId where "TAG_TYPE_BYTE_ARRAY = 7"
definition TAG_TYPE_STRING :: TagTypeId where "TAG_TYPE_STRING = 8"
definition TAG_TYPE_LIST :: TagTypeId where "TAG_TYPE_LIST = 9"
definition TAG_TYPE_COMPOUND :: TagTypeId where "TAG_TYPE_COMPOUND = 10"
definition TAG_TYPE_INT_ARRAY :: TagTypeId where "TAG_TYPE_INT_ARRAY = 11"

lemmas TAG_TYPE_defs =
  TAG_TYPE_END_def TAG_TYPE_BYTE_def TAG_TYPE_SHORT_def TAG_TYPE_INT_def
  TAG_TYPE_LONG_def TAG_TYPE_FLOAT_def TAG_TYPE_DOUBLE_def TAG_TYPE_BYTE_ARRAY_def
  TAG_TYPE_STRING_def TAG_TYPE_LIST_def TAG_TYPE_COMPOUND_def TAG_TYPE_INT_ARRAY_def

text \<open>
  The class hierarchy under \<^verbatim>\<open>Tag\<close> is a closed datatype. Signed payloads are words,
  read with \<^const>\<open>sint\<close>. A \<^verbatim>\<open>float\<close> or \<^verbatim>\<open>double\<close> is kept as its object
  representation, the bytes in memory order, because the reader fills it by copying bytes.
  \<^verbatim>\<open>ListTag<T>\<close> is one class per element class \<^verbatim>\<open>T\<close>; the constructor carries the
  type id that selected the instantiation (9 selects \<^verbatim>\<open>ListTag<Tag>\<close>).
  \<^verbatim>\<open>CompoundTag::values\<close> is an unordered map with unique keys; it is kept as an
  association list in insertion order, one of the orders the container may iterate in.
\<close>

datatype Tag =
    ByteTag "8 word"
  | ShortTag "16 word"
  | IntTag "32 word"
  | LongTag "64 word"
  | FloatTag "byte list"
  | DoubleTag "byte list"
  | ByteArrayTag "byte list"
  | StringTag Utf8String
  | ListTag TagTypeId "Tag list"
  | CompoundTag "(Utf8String \<times> Tag) list"
  | IntArrayTag "32 word list"

record RootTag =
  name :: Utf8String
  tag :: "Tag option"

datatype io_message =
    IoDefault
  | UnknownTagType TagTypeId
  | ListTagEnd
  | UnknownListTagType TagTypeId

datatype logic_message =
    SimpleTagCalledForList
  | SimpleTagCalledForCompound
  | AddTagTypeMismatch
  | NewReadStateForSimple
  | IndexOutOfRange

text \<open>
  The exceptions of the reader: \<^verbatim>\<open>PrematureEof\<close>, \<^verbatim>\<open>IoError\<close> with its message and
  \<^verbatim>\<open>std::logic_error\<close> with its message. \<open>IndexOutOfRange\<close> stands for a vector access
  outside its bounds, which the engine never performs from \<^verbatim>\<open>read_nbt\<close>.
\<close>

datatype error = PrematureEof | IoError io_message | LogicError logic_message

section \<open>Byte cursor (MemoryInputStream)\<close>

text \<open>\<^verbatim>\<open>m_size\<close> is the length of the data the stream was built on.\<close>

record MemoryInputStream =
  m_data :: "byte list"
  m_position :: nat

definition m_size :: "MemoryInputStream \<Rightarrow> nat" where
  "m_size s = length (m_data s)"

definition memory_input_stream :: "byte list \<Rightarrow> MemoryInputStream" where
  "memory_input_stream d = \<lparr>m_data = d, m_position = 0\<rparr>"

definition read :: "nat \<Rightarrow> MemoryInputStream \<Rightarrow> error + (byte list \<times> MemoryInputStream)" where
  "read n s =
     (if m_size s - m_position s < n then Inl PrematureEof
      else Inr (take n (drop (m_position s) (m_data s)),
                s\<lparr>m_position := m_position s + n\<rparr>))"

section \<open>Primitive codec (reader.cxx)\<close>

text \<open>
  \<^verbatim>\<open>twos_complement_decode<size, RT, IT>\<close>, one definition per instantiation the reader
  uses. Operands narrower than \<^verbatim>\<open>int\<close> are promoted to 32 bits before \<^verbatim>\<open>&\<close>, \<^verbatim>\<open>~\<close>,
  \<^verbatim>\<open>+\<close> and \<^verbatim>\<open>-\<close>, and the result is converted back on assignment and on return.
  Conversions and signed arithmetic wrap around.
\<close>

definition twos_complement_decode_1 :: "8 word \<Rightarrow> 8 word" where
  "twos_complement_decode_1 v =
     (let sign_bit = (ucast (push_bit (1 * 8 - 1) (ucast (1 :: 8 word) :: 32 word)) :: 8 word)
      in if (ucast v AND ucast sign_bit :: 32 word) \<noteq> 0
         then (let abs_value = (ucast (NOT (ucast v :: 32 word) + 1) :: 8 word)
               in ucast (- ((scast abs_value :: 32 word) - 1) - 1))
         else v)"

definition twos_complement_decode_2 :: "16 word \<Rightarrow> 16 word" where
  "twos_complement_decode_2 v =
     (let sign_bit = (ucast (push_bit (2 * 8 - 1) (ucast (1 :: 16 word) :: 32 word)) :: 16 word)
      in if (ucast v AND ucast sign_bit :: 32 word) \<noteq> 0
         then (let abs_value = (ucast (NOT (ucast v :: 32 word) + 1) :: 16 word)
               in ucast (- ((scast abs_value :: 32 word) - 1) - 1))
         else v)"

definition twos_complement_decode_4 :: "32 word \<Rightarrow> 32 word" where
  "twos_complement_decode_4 v =
     (let sign_bit = push_bit (4 * 8 - 1) (1 :: 32 word)
      in if v AND sign_bit \<noteq> 0
         then (let abs_value = NOT v + 1
               in - (abs_value - 1) - 1)
         else v)"

definition twos_complement_decode_8 :: "64 word \<Rightarrow> 64 word" where
  "twos_complement_decode_8 v =
     (let sign_bit = push_bit (8 * 8 - 1) (1 :: 64 word)
      in if v AND sign_bit \<noteq> 0
         then (let abs_value = NOT v + 1
               in - (abs_value - 1) - 1)
         else v)"

text \<open>
  The instantiation of \<^verbatim>\<open>read_int_array_tag\<close>,
  \<^verbatim>\<open>twos_complement_decode<4, uint32_t, int32_t>\<close>: the argument is the signed type and
  the result the unsigned one, converted to \<^verbatim>\<open>int32_t\<close> by the caller.
\<close>

definition twos_complement_decode_int_array :: "32 word \<Rightarrow> 32 word" where
  "twos_complement_decode_int_array v =
     (let sign_bit = push_bit (4 * 8 - 1) (1 :: 32 word)
      in if v AND sign_bit \<noteq> 0
         then (let abs_value = NOT v + 1
               in - (abs_value - 1) - 1)
         else v)"

definition read_big_endian_unsigned_int ::
    "nat \<Rightarrow> MemoryInputStream \<Rightarrow> error + ('a::len word \<times> MemoryInputStream)" where
  "read_big_endian_unsigned_int n s =
     (case read n s of
        Inl e \<Rightarrow> Inl e
      | Inr (bytes, s') \<Rightarrow> Inr (foldl (\<lambda>acc b. push_bit 8 acc OR ucast b) 0 bytes, s'))"

definition read_byte_array_tag :: "MemoryInputStream \<Rightarrow> error + (Tag \<times> MemoryInputStream)" where
  "read_byte_array_tag s =
     (case read_big_endian_unsigned_int 4 s of
        Inl e \<Rightarrow> Inl e
      | Inr (len :: 32 word, s1) \<Rightarrow>
          (case read (unat len) s1 of
             Inl e \<Rightarrow> Inl e
           | Inr (value, s2) \<Rightarrow> Inr (ByteArrayTag value, s2)))"

text \<open>The loop of \<^verbatim>\<open>read_int_array_tag\<close>: \<open>n\<close> is \<^verbatim>\<open>length - idx\<close>.\<close>

fun read_int_array_loop ::
    "nat \<Rightarrow> 32 word list \<Rightarrow> MemoryInputStream \<Rightarrow> error + (32 word list \<times> MemoryInputStream)" where
  "read_int_array_loop 0 values s = Inr (values, s)"
| "read_int_array_loop (Suc n) values s =
     (case read_big_endian_unsigned_int 4 s of
        Inl e \<Rightarrow> Inl e
      | Inr (encoded_int, s') \<Rightarrow>
          read_int_array_loop n (values @ [twos_complement_decode_int_array encoded_int]) s')"

definition read_int_array_tag :: "MemoryInputStream \<Rightarrow> error + (Tag \<times> MemoryInputStream)" where
  "read_int_array_tag s =
     (case read_big_endian_unsigned_int 4 s of
        Inl e \<Rightarrow> Inl e
      | Inr (len :: 32 word, s1) \<Rightarrow>
          (case read_int_array_loop (unat len) [] s1 of
             Inl e \<Rightarrow> Inl e
           | Inr (values, s2) \<Rightarrow> Inr (IntArrayTag values, s2)))"

text \<open>\<^verbatim>\<open>read_float_tag\<close>: \<open>n\<close> is \<^verbatim>\<open>sizeof(tag.value)\<close>, 4 or 8.\<close>

definition read_float_tag :: "nat \<Rightarrow> MemoryInputStream \<Rightarrow> error + (byte list \<times> MemoryInputStream)" where
  "read_float_tag n s = read n s"

definition read_string :: "MemoryInputStream \<Rightarrow> error + (Utf8String \<times> MemoryInputStream)" where
  "read_string s =
     (case read_big_endian_unsigned_int 2 s of
        Inl e \<Rightarrow> Inl e
      | Inr (string_length :: 16 word, s1) \<Rightarrow> read (unat string_length) s1)"

definition read_string_tag :: "MemoryInputStream \<Rightarrow> error + (Tag \<times> MemoryInputStream)" where
  "read_string_tag s =
     (case read_string s of Inl e \<Rightarrow> Inl e | Inr (value, s') \<Rightarrow> Inr (StringTag value, s'))"

definition read_simple_tag ::
    "MemoryInputStream \<Rightarrow> TagTypeId \<Rightarrow> error + (Tag \<times> MemoryInputStream)" where
  "read_simple_tag s tag_type =
     (if tag_type = TAG_TYPE_BYTE then
        (case read_big_endian_unsigned_int 1 s of
           Inl e \<Rightarrow> Inl e | Inr (v, s') \<Rightarrow> Inr (ByteTag (twos_complement_decode_1 v), s'))
      else if tag_type = TAG_TYPE_SHORT then
        (case read_big_endian_unsigned_int 2 s of
           Inl e \<Rightarrow> Inl e | Inr (v, s') \<Rightarrow> Inr (ShortTag (twos_complement_decode_2 v), s'))
      else if tag_type = TAG_TYPE_INT then
        (case read_big_endian_unsigned_int 4 s of
           Inl e \<Rightarrow> Inl e | Inr (v, s') \<Rightarrow> Inr (IntTag (twos_complement_decode_4 v), s'))
      else if tag_type = TAG_TYPE_LONG then
        (case read_big_endian_unsigned_int 8 s of
           Inl e \<Rightarrow> Inl e | Inr (v, s') \<Rightarrow> Inr (LongTag (twos_complement_decode_8 v), s'))
      else if tag_type = TAG_TYPE_FLOAT then
        (case read_float_tag 4 s of Inl e \<Rightarrow> Inl e | Inr (v, s') \<Rightarrow> Inr (FloatTag v, s'))
      else if tag_type = TAG_TYPE_DOUBLE then
        (case read_float_tag 8 s of Inl e \<Rightarrow> Inl e | Inr (v, s') \<Rightarrow> Inr (DoubleTag v, s'))
      else if tag_type = TAG_TYPE_BYTE_ARRAY then read_byte_array_tag s
      else if tag_type = TAG_TYPE_STRING then read_string_tag s
      else if tag_type = TAG_TYPE_LIST then Inl (LogicError SimpleTagCalledForList)
      else if tag_type = TAG_TYPE_COMPOUND then Inl (LogicError SimpleTagCalledForCompound)
      else if tag_type = TAG_TYPE_INT_ARRAY then read_int_array_tag s
      else Inl (IoError (UnknownTagType tag_type)))"

section \<open>Decode engine (reader.cxx)\<close>

text \<open>
  The frames of the work stack, the subclasses of \<^verbatim>\<open>TagReadState\<close>, with their member
  variables: a compound frame holds \<^verbatim>\<open>m_tag->values\<close> and \<^verbatim>\<open>m_next_tag_name\<close>, a list
  frame \<^verbatim>\<open>m_type_id\<close>, \<^verbatim>\<open>m_list_tag->values\<close> and \<^verbatim>\<open>m_remaining_reads\<close>. The root
  frame refers to the caller's \<^verbatim>\<open>RootTag\<close>, whose \<^verbatim>\<open>tag\<close> member is threaded through
  the engine as \<open>root\<close>.

  \<^verbatim>\<open>IoReadState\<close> is a vector used as a stack; it is modelled as a list whose head is
  the back of the vector, so \<^verbatim>\<open>io_state[io_state.size() - 1]\<close> is the head and
  \<^verbatim>\<open>io_state[io_state.size() - 2]\<close> the element after it.
\<close>

datatype TagReadState =
    ReadRootTagState
  | ReadCompoundTagState "(Utf8String \<times> Tag) list" Utf8String
  | ReadListTagState TagTypeId "Tag list" nat

type_synonym IoReadState = "TagReadState list"

text \<open>The type id of the class of a tag object.\<close>

fun tag_type_of :: "Tag \<Rightarrow> TagTypeId" where
  "tag_type_of (ByteTag _) = TAG_TYPE_BYTE"
| "tag_type_of (ShortTag _) = TAG_TYPE_SHORT"
| "tag_type_of (IntTag _) = TAG_TYPE_INT"
| "tag_type_of (LongTag _) = TAG_TYPE_LONG"
| "tag_type_of (FloatTag _) = TAG_TYPE_FLOAT"
| "tag_type_of (DoubleTag _) = TAG_TYPE_DOUBLE"
| "tag_type_of (ByteArrayTag _) = TAG_TYPE_BYTE_ARRAY"
| "tag_type_of (StringTag _) = TAG_TYPE_STRING"
| "tag_type_of (ListTag _ _) = TAG_TYPE_LIST"
| "tag_type_of (CompoundTag _) = TAG_TYPE_COMPOUND"
| "tag_type_of (IntArrayTag _) = TAG_TYPE_INT_ARRAY"

text \<open>
  \<^verbatim>\<open>dynamic_cast<T *>\<close> in \<^verbatim>\<open>ReadListTagState<T>::add_tag\<close>, where \<^verbatim>\<open>T\<close> is the class
  that \<^verbatim>\<open>new_list_read_state\<close> chose for the type id: for \<^verbatim>\<open>TAG_TYPE_LIST\<close> it is
  \<^verbatim>\<open>Tag\<close> itself, so every tag passes the cast.
\<close>

definition dynamic_cast_ok :: "TagTypeId \<Rightarrow> Tag \<Rightarrow> bool" where
  "dynamic_cast_ok type_id t = (type_id = TAG_TYPE_LIST \<or> tag_type_of t = type_id)"

text \<open>
  \<^verbatim>\<open>values.insert(std::pair(key, tag))\<close> on the unordered map: an entry whose key is
  already present is left as it is and the new pair is dropped.
\<close>

definition values_insert ::
    "(Utf8String \<times> Tag) list \<Rightarrow> Utf8String \<Rightarrow> Tag \<Rightarrow> (Utf8String \<times> Tag) list" where
  "values_insert vs k t = (if map_of vs k = None then vs @ [(k, t)] else vs)"

text \<open>\<^verbatim>\<open>add_tag\<close> of the three frame classes.\<close>

fun add_tag :: "TagReadState \<Rightarrow> Tag \<Rightarrow> Tag option \<Rightarrow> error + (TagReadState \<times> Tag option)" where
  "add_tag ReadRootTagState t root = Inr (ReadRootTagState, Some t)"
| "add_tag (ReadCompoundTagState vs next_tag_name) t root =
     Inr (ReadCompoundTagState (values_insert vs next_tag_name t) next_tag_name, root)"
| "add_tag (ReadListTagState type_id vs remaining_reads) t root =
     (if dynamic_cast_ok type_id t
      then Inr (ReadListTagState type_id (vs @ [t]) remaining_reads, root)
      else Inl (LogicError AddTagTypeMismatch))"

fun finish_tag :: "Tag \<Rightarrow> IoReadState \<Rightarrow> Tag option \<Rightarrow> error + (IoReadState \<times> Tag option)" where
  "finish_tag t (self # parent # below) root =
     (case add_tag parent t root of
        Inl e \<Rightarrow> Inl e
      | Inr (parent', root') \<Rightarrow> Inr (parent' # below, root'))"
| "finish_tag t _ root = Inl (LogicError IndexOutOfRange)"

definition new_list_read_state :: "TagTypeId \<Rightarrow> nat \<Rightarrow> error + TagReadState" where
  "new_list_read_state inner_tag_type len =
     (if inner_tag_type = TAG_TYPE_END then Inl (IoError ListTagEnd)
      else if inner_tag_type = TAG_TYPE_BYTE \<or> inner_tag_type = TAG_TYPE_SHORT
           \<or> inner_tag_type = TAG_TYPE_INT \<or> inner_tag_type = TAG_TYPE_LONG
           \<or> inner_tag_type = TAG_TYPE_FLOAT \<or> inner_tag_type = TAG_TYPE_DOUBLE
           \<or> inner_tag_type = TAG_TYPE_BYTE_ARRAY \<or> inner_tag_type = TAG_TYPE_STRING
           \<or> inner_tag_type = TAG_TYPE_LIST \<or> inner_tag_type = TAG_TYPE_COMPOUND
           \<or> inner_tag_type = TAG_TYPE_INT_ARRAY
      then Inr (ReadListTagState inner_tag_type [] len)
      else Inl (IoError (UnknownListTagType inner_tag_type)))"

definition new_read_state_for ::
    "MemoryInputStream \<Rightarrow> TagTypeId \<Rightarrow> error + (TagReadState \<times> MemoryInputStream)" where
  "new_read_state_for s tag_type =
     (if tag_type = TAG_TYPE_COMPOUND then Inr (ReadCompoundTagState [] [], s)
      else if tag_type = TAG_TYPE_LIST then
        (case read_big_endian_unsigned_int 1 s of
           Inl e \<Rightarrow> Inl e
         | Inr (inner_tag_type :: 8 word, s1) \<Rightarrow>
             (case read_big_endian_unsigned_int 4 s1 of
                Inl e \<Rightarrow> Inl e
              | Inr (len :: 32 word, s2) \<Rightarrow>
                  (case new_list_read_state inner_tag_type (unat len) of
                     Inl e \<Rightarrow> Inl e
                   | Inr st \<Rightarrow> Inr (st, s2))))
      else Inl (LogicError NewReadStateForSimple))"

text \<open>
  The one-pass loop of \<^verbatim>\<open>ReadListTagState::continue_read\<close> for a simple element type:
  \<open>n\<close> is \<^verbatim>\<open>m_remaining_reads - idx\<close>; each element goes through \<^verbatim>\<open>add_tag\<close> and its cast.
\<close>

fun read_list_elements ::
    "nat \<Rightarrow> TagTypeId \<Rightarrow> Tag list \<Rightarrow> MemoryInputStream \<Rightarrow> error + (Tag list \<times> MemoryInputStream)" where
  "read_list_elements 0 type_id vs s = Inr (vs, s)"
| "read_list_elements (Suc n) type_id vs s =
     (case read_simple_tag s type_id of
        Inl e \<Rightarrow> Inl e
      | Inr (t, s') \<Rightarrow>
          (if dynamic_cast_ok type_id t then read_list_elements n type_id (vs @ [t]) s'
           else Inl (LogicError AddTagTypeMismatch)))"

text \<open>
  \<^verbatim>\<open>continue_read\<close> of the frame on top of the stack. The engine state is the stream,
  the stack and the root slot.
\<close>

type_synonym engine = "MemoryInputStream \<times> IoReadState \<times> Tag option"

fun continue_read :: "engine \<Rightarrow> error + engine" where
  "continue_read (s, [], root) = Inl (LogicError IndexOutOfRange)"
| "continue_read (s, ReadRootTagState # below, root) = Inr (s, below, root)"
| "continue_read (s, ReadCompoundTagState vs next_tag_name # below, root) =
     (case read_big_endian_unsigned_int 1 s of
        Inl e \<Rightarrow> Inl e
      | Inr (tag_type_id :: 8 word, s1) \<Rightarrow>
          if tag_type_id = TAG_TYPE_END then
            (case finish_tag (CompoundTag vs) (ReadCompoundTagState vs next_tag_name # below) root of
               Inl e \<Rightarrow> Inl e
             | Inr (io_state', root') \<Rightarrow> Inr (s1, io_state', root'))
          else
            (case read_string s1 of
               Inl e \<Rightarrow> Inl e
             | Inr (nm, s2) \<Rightarrow>
                 if tag_type_id = TAG_TYPE_COMPOUND \<or> tag_type_id = TAG_TYPE_LIST then
                   (case new_read_state_for s2 tag_type_id of
                      Inl e \<Rightarrow> Inl e
                    | Inr (st, s3) \<Rightarrow> Inr (s3, st # ReadCompoundTagState vs nm # below, root))
                 else
                   (case read_simple_tag s2 tag_type_id of
                      Inl e \<Rightarrow> Inl e
                    | Inr (t, s3) \<Rightarrow>
                        Inr (s3, ReadCompoundTagState (values_insert vs nm t) nm # below, root))))"
| "continue_read (s, ReadListTagState type_id vs remaining_reads # below, root) =
     (if type_id = TAG_TYPE_COMPOUND \<or> type_id = TAG_TYPE_LIST then
        (if remaining_reads = 0 then
           (case finish_tag (ListTag type_id vs) (ReadListTagState type_id vs remaining_reads # below) root of
              Inl e \<Rightarrow> Inl e
            | Inr (io_state', root') \<Rightarrow> Inr (s, io_state', root'))
         else
           (case new_read_state_for s type_id of
              Inl e \<Rightarrow> Inl e
            | Inr (st, s1) \<Rightarrow>
                Inr (s1, st # ReadListTagState type_id vs (remaining_reads - 1) # below, root)))
      else
        (case read_list_elements remaining_reads type_id vs s of
           Inl e \<Rightarrow> Inl e
         | Inr (vs', s1) \<Rightarrow>
             (case finish_tag (ListTag type_id vs')
                     (ReadListTagState type_id vs' remaining_reads # below) root of
                Inl e \<Rightarrow> Inl e
              | Inr (io_state', root') \<Rightarrow> Inr (s1, io_state', root'))))"

text \<open>
  The drive loop \<^verbatim>\<open>process_read_state\<close> runs while the stack is not empty. It is defined
  by well-founded recursion on the bytes left in the stream and, when an activation
  reads nothing, on the work the stack still holds: a list frame weighs twice its
  remaining reads plus one, every other frame one.
\<close>

definition bytes_left :: "MemoryInputStream \<Rightarrow> nat" where
  "bytes_left s = m_size s - m_position s"

fun frame_weight :: "TagReadState \<Rightarrow> nat" where
  "frame_weight ReadRootTagState = 1"
| "frame_weight (ReadCompoundTagState _ _) = 1"
| "frame_weight (ReadListTagState _ _ remaining_reads) = 2 * remaining_reads + 1"

definition stack_weight :: "IoReadState \<Rightarrow> nat" where
  "stack_weight io_state = sum_list (map frame_weight io_state)"

text \<open>No reader moves the cursor backwards.\<close>

lemma read_left: "read n s = Inr (bs, s') \<Longrightarrow> bytes_left s' + n = bytes_left s"
  by (auto simp: read_def bytes_left_def m_size_def split: if_splits)

lemma read_big_endian_left:
  "read_big_endian_unsigned_int n s = Inr (v, s') \<Longrightarrow> bytes_left s' + n = bytes_left s"
  by (auto simp: read_big_endian_unsigned_int_def split: sum.splits dest: read_left)

lemma read_string_left: "read_string s = Inr (v, s') \<Longrightarrow> bytes_left s' \<le> bytes_left s"
  by (auto simp: read_string_def split: sum.splits dest!: read_left read_big_endian_left)

lemma read_int_array_loop_left:
  "read_int_array_loop n vs s = Inr (vs', s') \<Longrightarrow> bytes_left s' \<le> bytes_left s"
proof (induction n arbitrary: vs s)
  case 0
  then show ?case by simp
next
  case (Suc n)
  from Suc.prems obtain w s1 where
    r: "read_big_endian_unsigned_int 4 s = Inr (w :: 32 word, s1)"
    and l: "read_int_array_loop n (vs @ [twos_complement_decode_int_array w]) s1 = Inr (vs', s')"
    by (auto split: sum.splits)
  from Suc.IH [OF l] read_big_endian_left [OF r] show ?case by simp
qed

lemma read_simple_tag_left:
  "read_simple_tag s k = Inr (t, s') \<Longrightarrow> bytes_left s' \<le> bytes_left s"
  by (auto simp: read_simple_tag_def read_float_tag_def read_byte_array_tag_def
        read_string_tag_def read_int_array_tag_def
      split: if_splits sum.splits
      dest!: read_left read_big_endian_left read_string_left read_int_array_loop_left)

lemma read_list_elements_left:
  "read_list_elements n k vs s = Inr (vs', s') \<Longrightarrow> bytes_left s' \<le> bytes_left s"
proof (induction n arbitrary: vs s)
  case 0
  then show ?case by simp
next
  case (Suc n)
  from Suc.prems obtain t s1 where
    r: "read_simple_tag s k = Inr (t, s1)"
    and l: "read_list_elements n k (vs @ [t]) s1 = Inr (vs', s')"
    by (auto split: sum.splits if_splits)
  from Suc.IH [OF l] read_simple_tag_left [OF r] show ?case by simp
qed

lemma new_read_state_for_left:
  "new_read_state_for s k = Inr (st, s') \<Longrightarrow> bytes_left s' \<le> bytes_left s"
  by (auto simp: new_read_state_for_def split: if_splits sum.splits dest!: read_big_endian_left)

lemma new_read_state_for_compound:
  "new_read_state_for s TAG_TYPE_COMPOUND = Inr (st, s') \<Longrightarrow> s' = s \<and> frame_weight st = 1"
  by (auto simp: new_read_state_for_def)

lemma new_read_state_for_list_left:
  "new_read_state_for s TAG_TYPE_LIST = Inr (st, s') \<Longrightarrow> bytes_left s' < bytes_left s"
  by (auto simp: new_read_state_for_def TAG_TYPE_defs split: if_splits sum.splits dest!: read_big_endian_left)

lemma frame_weight_pos: "0 < frame_weight f"
  by (cases f) auto

lemma finish_tag_weight:
  "finish_tag t io_state root = Inr (io_state', root') \<Longrightarrow> stack_weight io_state' < stack_weight io_state"
  apply (cases "(t, io_state, root)" rule: finish_tag.cases)
   apply (auto simp: stack_weight_def split: sum.splits)
  subgoal for self parent below a
    by (cases parent) (auto simp: frame_weight_pos split: if_splits)
  done

lemma continue_read_decreases:
  "continue_read st = Inr st' \<Longrightarrow>
     (st', st) \<in> measures [\<lambda>(s, io_state, root). bytes_left s, \<lambda>(s, io_state, root). stack_weight io_state]"
proof (cases st rule: continue_read.cases)
  case (1 s root)
  assume "continue_read st = Inr st'"
  with 1 show ?thesis by simp
next
  case (2 s below root)
  assume "continue_read st = Inr st'"
  with 2 show ?thesis by (auto simp: stack_weight_def)
next
  case (3 s vs next_tag_name below root)
  assume "continue_read st = Inr st'"
  with 3 show ?thesis
    by (auto split: sum.splits if_splits
        dest!: read_big_endian_left read_string_left new_read_state_for_left read_simple_tag_left)
next
  case (4 s type_id vs remaining_reads below root)
  assume "continue_read st = Inr st'"
  with 4 show ?thesis
    by (auto simp: stack_weight_def split: sum.splits if_splits
        dest!: finish_tag_weight[unfolded stack_weight_def] read_list_elements_left
               new_read_state_for_compound new_read_state_for_list_left)
qed

function process_read_state :: "engine \<Rightarrow> error + engine" where
  "process_read_state (s, io_state, root) =
     (if io_state = [] then Inr (s, io_state, root)
      else (case continue_read (s, io_state, root) of
              Inl e \<Rightarrow> Inl e
            | Inr st' \<Rightarrow> process_read_state st'))"
  by pat_completeness auto
termination
  by (relation "measures [\<lambda>(s, io_state, root). bytes_left s, \<lambda>(s, io_state, root). stack_weight io_state]")
     (auto dest: continue_read_decreases)

declare process_read_state.simps [simp del]

definition read_nbt :: "MemoryInputStream \<Rightarrow> error + (RootTag \<times> MemoryInputStream)" where
  "read_nbt s =
     (case read_big_endian_unsigned_int 1 s of
        Inl e \<Rightarrow> Inl e
      | Inr (tag_type_id :: 8 word, s1) \<Rightarrow>
          (case read_string s1 of
             Inl e \<Rightarrow> Inl e
           | Inr (nm, s2) \<Rightarrow>
               if tag_type_id = TAG_TYPE_LIST \<or> tag_type_id = TAG_TYPE_COMPOUND then
                 (case new_read_state_for s2 tag_type_id of
                    Inl e \<Rightarrow> Inl e
                  | Inr (st, s3) \<Rightarrow>
                      (case process_read_state (s3, [st, ReadRootTagState], None) of
                         Inl e \<Rightarrow> Inl e
                       | Inr (s4, io_state, root) \<Rightarrow> Inr (\<lparr>name = nm, tag = root\<rparr>, s4)))
               else Inr (\<lparr>name = nm, tag = None\<rparr>, s2)))"

section \<open>Big-endian assembly and the cursor, as arithmetic\<close>

text \<open>
  The value that the shift-and-or loop of \<^verbatim>\<open>read_big_endian_unsigned_int\<close> assembles is
  the base-256 number written by the bytes, most significant byte first.
\<close>

lemma be_or_plus: "push_bit 8 (acc :: 'a::len word) OR ucast (b::8 word) = push_bit 8 acc + ucast b"
  by (rule disjunctive_add[symmetric]) (auto simp: bit_simps dest: bit_imp_le_length)

lemma be_step_unat:
  "unat (push_bit 8 (acc :: 'a::len word) OR ucast (b::8 word)) = (256 * unat acc + unat b) mod 2 ^ LENGTH('a)"
  unfolding be_or_plus
  by (simp add: unat_word_ariths unsigned_push_bit_eq unsigned_ucast_eq
      push_bit_eq_mult take_bit_eq_mod mod_simps mult.commute)

fun be_nat :: "byte list \<Rightarrow> nat" where
  "be_nat [] = 0"
| "be_nat (b # bytes) = unat b * 256 ^ length bytes + be_nat bytes"

lemma be_nat_bound: "be_nat bytes < 256 ^ length bytes"
proof (induction bytes)
  case Nil
  then show ?case by simp
next
  case (Cons b bytes)
  have "unat b < 256" using unsigned_less [of b] by simp
  then have "unat b * 256 ^ length bytes + be_nat bytes < (unat b + 1) * 256 ^ length bytes"
    using Cons.IH by (simp add: algebra_simps)
  also have "\<dots> \<le> 256 * 256 ^ length bytes"
    using \<open>unat b < 256\<close> by (intro mult_le_mono1) simp
  finally show ?case by simp
qed

lemma foldl_be_unat:
  "unat (foldl (\<lambda>acc b. push_bit 8 acc OR ucast (b::byte)) (w::'a::len word) bytes) =
     (unat w * 256 ^ length bytes + be_nat bytes) mod 2 ^ LENGTH('a)"
proof (induction bytes arbitrary: w)
  case Nil
  then show ?case using unsigned_less [of w, where 'a=nat] by simp
next
  case (Cons b bytes)
  have "unat (foldl (\<lambda>acc b. push_bit 8 acc OR ucast (b::byte)) w (b # bytes)) =
     (((256 * unat w + unat b) mod 2 ^ LENGTH('a)) * 256 ^ length bytes + be_nat bytes) mod 2 ^ LENGTH('a)"
    by (simp add: Cons.IH be_step_unat)
  also have "\<dots> = ((256 * unat w + unat b) * 256 ^ length bytes + be_nat bytes) mod 2 ^ LENGTH('a)"
    by (metis mod_add_left_eq mod_mult_left_eq)
  finally show ?case by (simp add: algebra_simps)
qed

lemma be_unat_exact:
  "8 * length bytes \<le> LENGTH('a) \<Longrightarrow>
   unat (foldl (\<lambda>acc b. push_bit 8 acc OR ucast (b::byte)) (0::'a::len word) bytes) = be_nat bytes"
proof -
  assume a: "8 * length bytes \<le> LENGTH('a)"
  have "be_nat bytes < 2 ^ (8 * length bytes)"
    using be_nat_bound [of bytes] by (simp add: power_mult)
  also have "\<dots> \<le> (2::nat) ^ LENGTH('a)" using a by (intro power_increasing) simp_all
  finally show ?thesis by (simp add: foldl_be_unat)
qed


text \<open>The bytes the cursor has not consumed yet, and the cursor moved forward.\<close>

definition remaining :: "MemoryInputStream \<Rightarrow> byte list" where
  "remaining s = drop (m_position s) (m_data s)"

definition advance :: "nat \<Rightarrow> MemoryInputStream \<Rightarrow> MemoryInputStream" where
  "advance n s = s\<lparr>m_position := m_position s + n\<rparr>"

lemma read_eq:
  "read n s = (if length (remaining s) < n then Inl PrematureEof
               else Inr (take n (remaining s), advance n s))"
  by (simp add: read_def remaining_def advance_def m_size_def)

lemma remaining_advance [simp]: "remaining (advance n s) = drop n (remaining s)"
  by (simp add: remaining_def advance_def add.commute)

lemma advance_advance [simp]: "advance m (advance n s) = advance (n + m) s"
  by (simp add: advance_def add.assoc)

lemma advance_0 [simp]: "advance 0 s = s"
  by (simp add: advance_def)

lemma read_append:
  "remaining s = bs @ rest \<Longrightarrow> length bs = n \<Longrightarrow> read n s = Inr (bs, advance n s)"
  by (simp add: read_eq)

lemma read_big_endian_append:
  "remaining s = bs @ rest \<Longrightarrow> length bs = n \<Longrightarrow>
   read_big_endian_unsigned_int n s =
     Inr (foldl (\<lambda>acc b. push_bit 8 acc OR ucast b) 0 bs, advance n s)"
  by (simp add: read_big_endian_unsigned_int_def read_append)

lemma read_byte:
  "remaining s = b # rest \<Longrightarrow> read_big_endian_unsigned_int (Suc 0) s = Inr (b, advance 1 s)"
  using read_big_endian_append [of s "[b]" rest 1, where 'a=8] by simp

lemma read_string_append:
  assumes "remaining s = hi # lo # nm @ rest" and "length nm = 256 * unat hi + unat lo"
  shows "read_string s = Inr (nm, advance (2 + length nm) s)"
proof -
  have r: "read_big_endian_unsigned_int 2 s =
      Inr (foldl (\<lambda>acc b. push_bit 8 acc OR ucast b) (0 :: 16 word) [hi, lo], advance 2 s)"
    using assms(1) by (intro read_big_endian_append [where rest = "nm @ rest"]) simp_all
  have u: "unat (foldl (\<lambda>acc b. push_bit 8 acc OR ucast b) (0 :: 16 word) [hi, lo]) = length nm"
    using be_unat_exact [of "[hi, lo]", where 'a=16] assms(2) by simp
  show ?thesis
    unfolding read_string_def r using u assms(1)
    by (simp add: read_append [where rest = rest] del: foldl.simps)
qed

lemma remaining_memory_input_stream [simp]: "remaining (memory_input_stream d) = d"
  by (simp add: remaining_def memory_input_stream_def)

section \<open>The root header\<close>

text \<open>
  Claim C2. When the first byte of the stream, the root type id, is neither 9 (List) nor
  10 (Compound), \<^verbatim>\<open>read_nbt\<close> consumes the type id and the length-prefixed root name and
  nothing else, raises no error for the type id, whatever its value, and returns a
  \<^verbatim>\<open>RootTag\<close> with that name and a null \<^verbatim>\<open>tag\<close>: the cursor stops in front of the
  payload bytes.
\<close>

theorem read_nbt_non_container_root:
  assumes "k \<noteq> TAG_TYPE_LIST" and "k \<noteq> TAG_TYPE_COMPOUND"
    and "length nm = 256 * unat hi + unat lo"
  shows "read_nbt (memory_input_stream (k # hi # lo # nm @ rest)) =
           Inr (\<lparr>name = nm, tag = None\<rparr>,
                \<lparr>m_data = k # hi # lo # nm @ rest, m_position = 3 + length nm\<rparr>)"
proof -
  let ?s = "memory_input_stream (k # hi # lo # nm @ rest)"
  have 1: "read_big_endian_unsigned_int 1 ?s = Inr (k, advance 1 ?s)"
    using read_byte [of ?s k] by simp
  have 2: "read_string (advance 1 ?s) = Inr (nm, advance (2 + length nm) (advance 1 ?s))"
    using assms(3) by (intro read_string_append [where rest = rest]) simp_all
  show ?thesis
    using 1 2 assms(1,2)
    by (simp add: read_nbt_def advance_def memory_input_stream_def)
qed

theorem read_nbt_non_container_root_witness:
  "(1 :: 8 word) \<noteq> TAG_TYPE_LIST \<and> (1 :: 8 word) \<noteq> TAG_TYPE_COMPOUND
   \<and> length [65 :: byte] = 256 * unat (0 :: byte) + unat (1 :: byte)
   \<and> read_nbt (memory_input_stream [1, 0, 1, 65, 5]) =
       Inr (\<lparr>name = [65], tag = None\<rparr>, \<lparr>m_data = [1, 0, 1, 65, 5], m_position = 4\<rparr>)"
  using read_nbt_non_container_root [of 1 "[65]" 0 1 "[5]"]
  by (simp add: TAG_TYPE_defs)

section \<open>Lists that declare the element type End\<close>

text \<open>
  Claim C3, as amended. When the engine begins a List whose declared element type is
  End (0), the decode fails with the \<^verbatim>\<open>IoError\<close> "List tag had a tag type of TAG_End",
  whatever the declared count, zero included: \<^verbatim>\<open>new_list_read_state\<close> rejects the type
  id before it looks at the length.
\<close>

theorem list_of_end_rejected:
  "new_list_read_state TAG_TYPE_END len = Inl (IoError ListTagEnd)
   \<and> (remaining s = TAG_TYPE_END # c1 # c2 # c3 # c4 # rest \<longrightarrow>
        new_read_state_for s TAG_TYPE_LIST = Inl (IoError ListTagEnd))"
proof -
  have a: "new_list_read_state TAG_TYPE_END n = Inl (IoError ListTagEnd)" for n
    by (simp add: new_list_read_state_def)
  have b: "new_read_state_for s TAG_TYPE_LIST = Inl (IoError ListTagEnd)"
    if r: "remaining s = TAG_TYPE_END # c1 # c2 # c3 # c4 # rest"
  proof -
    have 1: "read_big_endian_unsigned_int 1 s = Inr (TAG_TYPE_END, advance 1 s)"
      using read_byte [OF r] by simp
    have 2: "read_big_endian_unsigned_int 4 (advance 1 s) =
        Inr (foldl (\<lambda>acc b. push_bit 8 acc OR ucast b) (0 :: 32 word) [c1, c2, c3, c4],
             advance 4 (advance 1 s))"
      using r by (intro read_big_endian_append [where rest = rest]) simp_all
    show ?thesis
      using 1 2
      by (simp add: new_read_state_for_def new_list_read_state_def TAG_TYPE_defs del: foldl.simps)
  qed
  from a b show ?thesis by blast
qed

theorem list_of_end_rejected_witness:
  "remaining (memory_input_stream [0, 0, 0, 0, 0]) = TAG_TYPE_END # 0 # 0 # 0 # 0 # []
   \<and> new_read_state_for (memory_input_stream [0, 0, 0, 0, 0]) TAG_TYPE_LIST = Inl (IoError ListTagEnd)"
  using list_of_end_rejected [of 0 "memory_input_stream [0, 0, 0, 0, 0]" 0 0 0 0 "[]"]
  by (simp add: TAG_TYPE_defs)

text \<open>
  Claim C3 as first stated lets a count of zero through. A root List of End with count 0
  is rejected.
\<close>

theorem empty_list_of_end_counterexample:
  "read_nbt (memory_input_stream [9, 0, 0, 0, 0, 0, 0, 0]) = Inl (IoError ListTagEnd)"
  by code_simp

section \<open>Two's-complement decoding\<close>

text \<open>A conversion to a narrower unsigned type keeps sums, negations and sign extensions.\<close>

lemma ucast_down_add:
  assumes "is_down (ucast :: 'a::len word \<Rightarrow> 'b::len word)"
  shows "(ucast (a + b :: 'a word) :: 'b word) = ucast a + ucast b"
proof -
  have "a + b = word_of_int (uint a + uint b)" by simp
  then have "(ucast (a + b) :: 'b word) = word_of_int (uint a + uint b)"
    using assms by (simp only: ucast_down_wi)
  also have "\<dots> = word_of_int (uint a) + word_of_int (uint b)"
    by (simp only: wi_hom_add)
  finally show ?thesis by (simp only: ucast_eq)
qed

lemma ucast_down_uminus:
  assumes "is_down (ucast :: 'a::len word \<Rightarrow> 'b::len word)"
  shows "(ucast (- a :: 'a word) :: 'b word) = - ucast a"
proof -
  have "- a = word_of_int (- uint a)" by simp
  then have "(ucast (- a) :: 'b word) = word_of_int (- uint a)"
    using assms by (simp only: ucast_down_wi)
  also have "\<dots> = - word_of_int (uint a)"
    by (simp only: wi_hom_neg)
  finally show ?thesis by (simp only: ucast_eq)
qed

lemma ucast_down_scast:
  assumes "is_down (ucast :: 'a::len word \<Rightarrow> 'b::len word)"
  shows "(ucast (scast (w :: 'b word) :: 'a word) :: 'b word) = w"
proof -
  have "(scast w :: 'a word) = word_of_int (sint w)" by (simp only: scast_eq)
  then have "(ucast (scast w :: 'a word) :: 'b word) = word_of_int (sint w)"
    using assms by (simp only: ucast_down_wi)
  then show ?thesis by simp
qed

text \<open>Each instantiation of \<^verbatim>\<open>twos_complement_decode\<close> returns the bit pattern it was given.\<close>

lemma twos_complement_decode_4_id: "twos_complement_decode_4 v = v"
  by (simp add: twos_complement_decode_4_def Let_def not_eq_complement)

lemma twos_complement_decode_8_id: "twos_complement_decode_8 v = v"
  by (simp add: twos_complement_decode_8_def Let_def not_eq_complement)

lemma twos_complement_decode_int_array_id: "twos_complement_decode_int_array v = v"
  by (simp add: twos_complement_decode_int_array_def Let_def not_eq_complement)

lemma twos_complement_decode_1_id: "twos_complement_decode_1 v = v"
  by (simp add: twos_complement_decode_1_def Let_def ucast_down_add ucast_down_uminus ucast_down_scast is_down
      not_eq_complement ucast_down_ucast_id)

lemma twos_complement_decode_2_id: "twos_complement_decode_2 v = v"
  by (simp add: twos_complement_decode_2_def Let_def ucast_down_add ucast_down_uminus ucast_down_scast is_down
      not_eq_complement ucast_down_ucast_id)


text \<open>The signed reading of a bit pattern.\<close>

lemma sint_cases:
  "sint (v :: 'a::len word) = (if bit v (LENGTH('a) - 1) then uint v - 2 ^ LENGTH('a) else uint v)"
  using signed_take_bit_eq_take_bit_minus [of "LENGTH('a) - 1" "uint v"]
  by (simp add: sint_uint bit_uint_iff take_bit_int_eq_self_iff uint_lt2p flip: One_nat_def)



lemma uint_complement_plus_1:
  assumes "v \<noteq> 0"
  shows "uint (NOT v + 1 :: 'a::len word) = 2 ^ LENGTH('a) - uint v"
proof -
  have "uint v \<noteq> 0" using assms by (simp add: uint_0_iff)
  then have "0 < uint v" using uint_ge_0 [of v] by linarith
  moreover have "uint v < 2 ^ LENGTH('a)" by (rule uint_lt2p)
  ultimately have "(- uint v) mod 2 ^ LENGTH('a) = 2 ^ LENGTH('a) - uint v"
    by (simp add: zmod_zminus1_eq_if)
  then show ?thesis by (simp add: not_eq_complement uint_word_ariths)
qed

lemma sint_twos_complement:
  "sint (v :: 'a::len word) = (if bit v (LENGTH('a) - 1) then - uint (NOT v + 1) else uint v)"
proof (cases "bit v (LENGTH('a) - 1)")
  case True
  then have "v \<noteq> 0" by auto
  with True show ?thesis by (simp add: sint_cases uint_complement_plus_1)
next
  case False
  then show ?thesis by (simp add: sint_cases)
qed

text \<open>
  The big-endian two's-complement reading of a run of bytes: the base-256 number they
  write, less \<open>2 ^ (8 * length)\<close> when the top bit is set.
\<close>

definition be_twos_complement :: "byte list \<Rightarrow> int" where
  "be_twos_complement bytes =
     (if 2 ^ (8 * length bytes - 1) \<le> be_nat bytes
      then int (be_nat bytes) - 2 ^ (8 * length bytes)
      else int (be_nat bytes))"


lemma sint_unat_cases:
  "sint (v :: 'a::len word) =
     (if 2 ^ (LENGTH('a) - 1) \<le> unat v then int (unat v) - 2 ^ LENGTH('a) else int (unat v))"
proof -
  have p: "(2::int) ^ LENGTH('a) = 2 * 2 ^ (LENGTH('a) - 1)"
    by (metis len_gt_0 power_eq_if not_gr_zero)
  have u: "int (unat v) = uint v" by simp
  have "(2 ^ (LENGTH('a) - 1) \<le> unat v) = (int (2 ^ (LENGTH('a) - 1)) \<le> int (unat v))"
    by (simp only: of_nat_le_iff)
  then have c: "(2 ^ (LENGTH('a) - 1) \<le> unat v) = ((2::int) ^ (LENGTH('a) - 1) \<le> uint v)"
    by simp
  show ?thesis
    unfolding u c
    using sint_cases [of v] sint_ge [of v] sint_lt [of v] p
    by (auto split: if_splits)
qed

lemma sint_be_twos_complement:
  assumes "unat (w :: 'a::len word) = be_nat bytes" and "8 * length bytes = LENGTH('a)"
  shows "sint w = be_twos_complement bytes"
  using assms by (simp add: sint_unat_cases be_twos_complement_def)


lemma read_big_endian_Inr:
  assumes "read_big_endian_unsigned_int n s = Inr (w, s')"
  shows "w = foldl (\<lambda>acc b. push_bit 8 acc OR ucast b) 0 (take n (remaining s))"
    and "s' = advance n s" and "n \<le> length (remaining s)"
  using assms by (auto simp: read_big_endian_unsigned_int_def read_eq split: if_splits)

lemma read_int_array_loop_elements:
  "read_int_array_loop n vs s = Inr (vs', s') \<Longrightarrow>
     length vs' = length vs + n \<and> take (length vs) vs' = vs \<and>
     (\<forall>i<n. sint (vs' ! (length vs + i)) =
               be_twos_complement (take 4 (drop (4 * i) (remaining s))))"
proof (induction n arbitrary: vs s)
  case 0
  then show ?case by simp
next
  case (Suc n)
  from Suc.prems obtain w s1 where
    r: "read_big_endian_unsigned_int 4 s = Inr (w :: 32 word, s1)"
    and l: "read_int_array_loop n (vs @ [twos_complement_decode_int_array w]) s1 = Inr (vs', s')"
    by (auto split: sum.splits)
  note ih = Suc.IH [OF l]
  from read_big_endian_Inr [OF r] have
    w: "w = foldl (\<lambda>acc b. push_bit 8 acc OR ucast b) 0 (take 4 (remaining s))"
    and s1: "s1 = advance 4 s" and len: "4 \<le> length (remaining s)" by simp_all
  have "unat w = be_nat (take 4 (remaining s))"
    unfolding w using len by (intro be_unat_exact) simp
  then have sw: "sint w = be_twos_complement (take 4 (remaining s))"
    using len by (intro sint_be_twos_complement) simp_all
  from ih have tk: "take (Suc (length vs)) vs' = vs @ [w]" by (simp add: twos_complement_decode_int_array_id)
  then have "take (length vs) (take (Suc (length vs)) vs') = vs" by simp
  then have t: "take (length vs) vs' = vs" by (simp add: min_def)
  from ih have lv: "length vs' = length vs + Suc n" by simp
  have "vs' ! length vs = (take (Suc (length vs)) vs') ! length vs" by simp
  then have z: "vs' ! length vs = w" by (simp add: tk)
  have "sint (vs' ! (length vs + i)) = be_twos_complement (take 4 (drop (4 * i) (remaining s)))"
    if "i < Suc n" for i
  proof (cases i)
    case 0
    then show ?thesis using z sw by simp
  next
    case (Suc j)
    with that have "j < n" by simp
    with ih have "sint (vs' ! (length (vs @ [twos_complement_decode_int_array w]) + j)) =
        be_twos_complement (take 4 (drop (4 * j) (remaining s1)))" by blast
    then show ?thesis using Suc by (simp add: s1 add.commute)
  qed
  with lv t show ?case by blast
qed

lemma read_int_array_tag_elements:
  assumes "read_int_array_tag s = Inr (IntArrayTag ws, s')" and "i < length ws"
  shows "sint (ws ! i) = be_twos_complement (take 4 (drop (4 + 4 * i) (remaining s)))"
proof -
  from assms(1) obtain len s1 where
    r: "read_big_endian_unsigned_int 4 s = Inr (len :: 32 word, s1)"
    and l: "read_int_array_loop (unat len) [] s1 = Inr (ws, s')"
    by (auto simp: read_int_array_tag_def split: sum.splits)
  from read_big_endian_Inr(2) [OF r] have s1: "s1 = advance 4 s" .
  from read_int_array_loop_elements [OF l] assms(2) show ?thesis
    by (simp add: s1 add.commute)
qed

text \<open>
  Claim C7. For each width 1, 2, 4 and 8 and every raw value of that width, the decoded
  value, read as a signed integer, is minus the complement of the raw value plus one when
  bit \<open>width * 8 - 1\<close> is set, and the raw value itself otherwise. The byte 0xFF decodes
  as a Byte to -1, the bytes 0x80 0x00 as a Short to -32768 and 0x7F 0xFF as a Short to
  32767. Every element of an IntArray is the big-endian two's-complement reading of its
  four bytes, which follow the four length bytes.
\<close>

theorem twos_complement_decode_correct:
  "sint (twos_complement_decode_1 v1) = (if bit v1 (1 * 8 - 1) then - uint (NOT v1 + 1) else uint v1)
   \<and> sint (twos_complement_decode_2 v2) = (if bit v2 (2 * 8 - 1) then - uint (NOT v2 + 1) else uint v2)
   \<and> sint (twos_complement_decode_4 v4) = (if bit v4 (4 * 8 - 1) then - uint (NOT v4 + 1) else uint v4)
   \<and> sint (twos_complement_decode_8 v8) = (if bit v8 (8 * 8 - 1) then - uint (NOT v8 + 1) else uint v8)
   \<and> (case read_simple_tag (memory_input_stream [0xFF]) TAG_TYPE_BYTE of
         Inr (ByteTag w, _) \<Rightarrow> sint w = - 1 | _ \<Rightarrow> False)
   \<and> (case read_simple_tag (memory_input_stream [0x80, 0x00]) TAG_TYPE_SHORT of
         Inr (ShortTag w, _) \<Rightarrow> sint w = - 32768 | _ \<Rightarrow> False)
   \<and> (case read_simple_tag (memory_input_stream [0x7F, 0xFF]) TAG_TYPE_SHORT of
         Inr (ShortTag w, _) \<Rightarrow> sint w = 32767 | _ \<Rightarrow> False)
   \<and> (read_int_array_tag s = Inr (IntArrayTag ws, s') \<longrightarrow>
        (\<forall>i<length ws. sint (ws ! i) =
            be_twos_complement (take 4 (drop (4 + 4 * i) (remaining s)))))"
proof -
  have 1: "sint (twos_complement_decode_1 v1) = (if bit v1 (1 * 8 - 1) then - uint (NOT v1 + 1) else uint v1)"
    using sint_twos_complement [of v1] by (simp add: twos_complement_decode_1_id)
  have 2: "sint (twos_complement_decode_2 v2) = (if bit v2 (2 * 8 - 1) then - uint (NOT v2 + 1) else uint v2)"
    using sint_twos_complement [of v2] by (simp add: twos_complement_decode_2_id)
  have 4: "sint (twos_complement_decode_4 v4) = (if bit v4 (4 * 8 - 1) then - uint (NOT v4 + 1) else uint v4)"
    using sint_twos_complement [of v4] by (simp add: twos_complement_decode_4_id)
  have 8: "sint (twos_complement_decode_8 v8) = (if bit v8 (8 * 8 - 1) then - uint (NOT v8 + 1) else uint v8)"
    using sint_twos_complement [of v8] by (simp add: twos_complement_decode_8_id)
  have f1: "(case read_simple_tag (memory_input_stream [0xFF]) TAG_TYPE_BYTE of
         Inr (ByteTag w, _) \<Rightarrow> sint w = - 1 | _ \<Rightarrow> False)"
    by code_simp
  have f2: "(case read_simple_tag (memory_input_stream [0x80, 0x00]) TAG_TYPE_SHORT of
         Inr (ShortTag w, _) \<Rightarrow> sint w = - 32768 | _ \<Rightarrow> False)"
    by code_simp
  have f3: "(case read_simple_tag (memory_input_stream [0x7F, 0xFF]) TAG_TYPE_SHORT of
         Inr (ShortTag w, _) \<Rightarrow> sint w = 32767 | _ \<Rightarrow> False)"
    by code_simp
  have ia: "read_int_array_tag s = Inr (IntArrayTag ws, s') \<longrightarrow>
        (\<forall>i<length ws. sint (ws ! i) =
            be_twos_complement (take 4 (drop (4 + 4 * i) (remaining s))))"
    using read_int_array_tag_elements by blast
  from 1 2 4 8 f1 f2 f3 ia show ?thesis by blast
qed

theorem twos_complement_decode_correct_witness:
  "read_int_array_tag (memory_input_stream [0, 0, 0, 2, 255, 255, 255, 254, 0, 0, 0, 7]) =
      Inr (IntArrayTag [- 2, 7],
           \<lparr>m_data = [0, 0, 0, 2, 255, 255, 255, 254, 0, 0, 0, 7], m_position = 12\<rparr>)
   \<and> sint (- 2 :: 32 word) = be_twos_complement [255, 255, 255, 254]
   \<and> be_twos_complement [255, 255, 255, 254] = - 2
   \<and> sint (twos_complement_decode_1 0x80) = - 128"
proof -
  let ?s = "memory_input_stream [0, 0, 0, 2, 255, 255, 255, 254, 0, 0, 0, 7]"
  let ?s' = "\<lparr>m_data = [0, 0, 0, 2, 255, 255, 255, 254, 0, 0, 0, 7], m_position = 12\<rparr>"
  have r: "read_int_array_tag ?s = Inr (IntArrayTag [- 2, 7], ?s')"
    by code_simp
  have b: "be_twos_complement [255, 255, 255, 254] = - 2"
    by (simp add: be_twos_complement_def)
  note t = twos_complement_decode_correct [of "0x80" 0 0 0 ?s "[- 2, 7]" ?s']
  from t have d: "sint (twos_complement_decode_1 0x80) = - 128" by simp
  from t r have "\<forall>i<length [- 2, 7 :: 32 word]. sint ([- 2, 7 :: 32 word] ! i) =
            be_twos_complement (take 4 (drop (4 + 4 * i) (remaining ?s)))"
    by blast
  from this [rule_format, of 0]
  have "sint ([- 2, 7 :: 32 word] ! 0) = be_twos_complement (take 4 (drop (4 + 4 * 0) (remaining ?s)))"
    by simp
  then have e: "sint (- 2 :: 32 word) = be_twos_complement [255, 255, 255, 254]"
    by simp
  from r b d e show ?thesis by simp
qed

section \<open>Activation of a compound frame\<close>

lemma read_entry_header:
  assumes "remaining s = k # hi # lo # nm @ rest" and "length nm = 256 * unat hi + unat lo"
  shows "read_big_endian_unsigned_int (Suc 0) s = Inr (k, advance 1 s)"
    and "read_string (advance 1 s) = Inr (nm, advance (3 + length nm) s)"
proof -
  show "read_big_endian_unsigned_int (Suc 0) s = Inr (k, advance 1 s)"
    using assms(1) by (rule read_byte)
  have "remaining (advance 1 s) = hi # lo # nm @ rest" using assms(1) by simp
  from read_string_append [OF this assms(2)]
  show "read_string (advance 1 s) = Inr (nm, advance (3 + length nm) s)"
    by (simp add: numeral_3_eq_3)
qed



section \<open>Termination of the drive loop\<close>

text \<open>
  One turn of the loop of \<^verbatim>\<open>process_read_state\<close> on an outcome: an exception stays, an
  empty stack stays, and otherwise the top frame is activated. The loop has halted when
  an exception was raised or the stack is empty.
\<close>

definition drive :: "error + engine \<Rightarrow> error + engine" where
  "drive r =
     (case r of
        Inl e \<Rightarrow> Inl e
      | Inr (s, io_state, root) \<Rightarrow>
          if io_state = [] then Inr (s, io_state, root) else continue_read (s, io_state, root))"

definition halted :: "error + engine \<Rightarrow> bool" where
  "halted r = (case r of Inl e \<Rightarrow> True | Inr (s, io_state, root) \<Rightarrow> io_state = [])"

text \<open>
  Claim C10. From every engine state, so for every input, well-formed or not, and in
  particular from the state in which \<^verbatim>\<open>read_nbt\<close> starts the loop, finitely many
  activations of the top frame reach an empty stack or an exception, and that outcome
  is what \<^verbatim>\<open>process_read_state\<close> returns. The recursion behind it is the one accepted
  for \<^const>\<open>process_read_state\<close>: every activation that returns either consumes input or
  leaves less work on the stack.
\<close>

theorem process_read_state_terminates:
  "\<exists>n. halted ((drive ^^ n) (Inr st)) \<and> process_read_state st = (drive ^^ n) (Inr st)"
proof (induction st rule: process_read_state.induct)
  case (1 s io_state root)
  show ?case
  proof (cases "io_state = []")
    case True
    then have "halted ((drive ^^ 0) (Inr (s, io_state, root)))
        \<and> process_read_state (s, io_state, root) = (drive ^^ 0) (Inr (s, io_state, root))"
      by (simp add: halted_def process_read_state.simps)
    then show ?thesis by blast
  next
    case False
    show ?thesis
    proof (cases "continue_read (s, io_state, root)")
      case (Inl e)
      with False have "halted ((drive ^^ 1) (Inr (s, io_state, root)))
          \<and> process_read_state (s, io_state, root) = (drive ^^ 1) (Inr (s, io_state, root))"
        by (simp add: halted_def drive_def process_read_state.simps)
      then show ?thesis by blast
    next
      case (Inr st')
      from "1.IH" [OF False Inr] obtain n where
        n: "halted ((drive ^^ n) (Inr st'))" "process_read_state st' = (drive ^^ n) (Inr st')"
        by blast
      have d: "drive (Inr (s, io_state, root)) = Inr st'"
        using False Inr by (simp add: drive_def)
      have "(drive ^^ Suc n) (Inr (s, io_state, root)) = (drive ^^ n) (Inr st')"
        by (simp only: funpow_Suc_right o_apply d)
      with n False Inr have "halted ((drive ^^ Suc n) (Inr (s, io_state, root)))
          \<and> process_read_state (s, io_state, root) = (drive ^^ Suc n) (Inr (s, io_state, root))"
        by (simp add: process_read_state.simps [of s io_state root])
      then show ?thesis by blast
    qed
  qed
qed

section \<open>Homogeneous lists\<close>

text \<open>
  A tag is homogeneous when every element of every list in it has the type id the list
  declares.
\<close>

fun homogeneous :: "Tag \<Rightarrow> bool" where
  "homogeneous (ListTag type_id vs) = (\<forall>t\<in>set vs. tag_type_of t = type_id \<and> homogeneous t)"
| "homogeneous (CompoundTag vs) = (\<forall>e\<in>set vs. homogeneous (snd e))"
| "homogeneous _ = True"

text \<open>
  The invariant of the engine. Every frame holds homogeneous tags only, and a list frame
  only tags of its element type. A frame that lies on a list frame is a frame of the
  list's element type: a compound frame on a list of Compound, a list frame on a list of
  List. The latter is what keeps lists of lists homogeneous, where the cast in
  \<^verbatim>\<open>add_tag\<close> lets every tag through. The root slot is empty or homogeneous.
\<close>

fun frame_ok :: "TagReadState \<Rightarrow> bool" where
  "frame_ok ReadRootTagState = True"
| "frame_ok (ReadCompoundTagState vs next_tag_name) = (\<forall>e\<in>set vs. homogeneous (snd e))"
| "frame_ok (ReadListTagState type_id vs remaining_reads) =
     (\<forall>t\<in>set vs. tag_type_of t = type_id \<and> homogeneous t)"

fun frame_type :: "TagReadState \<Rightarrow> TagTypeId option" where
  "frame_type ReadRootTagState = None"
| "frame_type (ReadCompoundTagState vs next_tag_name) = Some TAG_TYPE_COMPOUND"
| "frame_type (ReadListTagState type_id vs remaining_reads) = Some TAG_TYPE_LIST"

fun accepts :: "TagReadState \<Rightarrow> TagReadState \<Rightarrow> bool" where
  "accepts (ReadListTagState type_id vs remaining_reads) child = (frame_type child = Some type_id)"
| "accepts _ child = True"

fun stack_ok :: "IoReadState \<Rightarrow> bool" where
  "stack_ok [] = True"
| "stack_ok [f] = frame_ok f"
| "stack_ok (child # parent # below) =
     (frame_ok child \<and> accepts parent child \<and> stack_ok (parent # below))"

definition root_ok :: "Tag option \<Rightarrow> bool" where
  "root_ok root = (case root of None \<Rightarrow> True | Some t \<Rightarrow> homogeneous t)"


lemma stack_ok_tl: "stack_ok (f # below) \<Longrightarrow> stack_ok below"
  by (cases below) auto

lemma stack_ok_hd: "stack_ok (f # below) \<Longrightarrow> frame_ok f"
  by (cases below) auto

lemma stack_ok_replace:
  "stack_ok (f # below) \<Longrightarrow> frame_ok f' \<Longrightarrow> frame_type f' = frame_type f \<Longrightarrow>
   stack_ok (f' # below)"
  by (cases below; cases "hd below") auto

lemma read_simple_tag_type:
  "read_simple_tag s k = Inr (t, s') \<Longrightarrow> tag_type_of t = k \<and> homogeneous t"
  by (auto simp: read_simple_tag_def read_byte_array_tag_def read_string_tag_def
        read_int_array_tag_def split: if_splits sum.splits)

lemma read_list_elements_ok:
  "read_list_elements n k vs s = Inr (vs', s') \<Longrightarrow>
   \<forall>t\<in>set vs. tag_type_of t = k \<and> homogeneous t \<Longrightarrow>
   \<forall>t\<in>set vs'. tag_type_of t = k \<and> homogeneous t"
proof (induction n arbitrary: vs s)
  case 0
  then show ?case by simp
next
  case (Suc n)
  from Suc.prems(1) obtain t s1 where
    r: "read_simple_tag s k = Inr (t, s1)"
    and l: "read_list_elements n k (vs @ [t]) s1 = Inr (vs', s')"
    by (auto split: sum.splits if_splits)
  from read_simple_tag_type [OF r] Suc.prems(2)
  have "\<forall>t\<in>set (vs @ [t]). tag_type_of t = k \<and> homogeneous t" by auto
  from Suc.IH [OF l this] show ?case .
qed

lemma new_read_state_for_ok:
  "new_read_state_for s k = Inr (st, s') \<Longrightarrow> frame_ok st \<and> frame_type st = Some k"
  by (auto simp: new_read_state_for_def new_list_read_state_def split: if_splits sum.splits)

lemma add_tag_ok:
  assumes "add_tag parent t root = Inr (parent', root')"
    and "frame_ok parent" and "root_ok root" and "homogeneous t"
    and "accepts parent child" and "frame_type child = Some (tag_type_of t)"
  shows "frame_ok parent' \<and> root_ok root' \<and> frame_type parent' = frame_type parent"
  using assms
  by (cases parent) (auto simp: root_ok_def values_insert_def split: if_splits)

lemma finish_tag_ok:
  assumes "finish_tag t (self # below) root = Inr (io_state', root')"
    and "stack_ok (self # below)" and "root_ok root" and "homogeneous t"
    and "frame_type self = Some (tag_type_of t)"
  shows "stack_ok io_state' \<and> root_ok root'"
proof (cases below)
  case Nil
  with assms(1) show ?thesis by simp
next
  case (Cons parent below')
  with assms(1) obtain parent' where
    a: "add_tag parent t root = Inr (parent', root')" and io: "io_state' = parent' # below'"
    by (auto split: sum.splits)
  from assms(2) Cons have p: "stack_ok (parent # below')" "accepts parent self" by simp_all
  from add_tag_ok [OF a stack_ok_hd [OF p(1)] assms(3,4) p(2) assms(5)]
  have "frame_ok parent'" "root_ok root'" "frame_type parent' = frame_type parent" by simp_all
  with stack_ok_replace [OF p(1)] io show ?thesis by simp
qed

lemma continue_read_compound_ok:
  assumes "continue_read (s, ReadCompoundTagState vs next_tag_name # below, root)
             = Inr (s', io_state', root')"
    and "stack_ok (ReadCompoundTagState vs next_tag_name # below)" and "root_ok root"
  shows "stack_ok io_state' \<and> root_ok root'"
proof (cases "read_big_endian_unsigned_int 1 s :: error + 8 word \<times> MemoryInputStream")
  case (Inl e)
  with assms(1) show ?thesis by simp
next
  case (Inr p)
  then obtain k s1 where r: "read_big_endian_unsigned_int 1 s = Inr (k :: 8 word, s1)"
    by (cases p) simp
  from assms(2) have fo: "\<forall>e\<in>set vs. homogeneous (snd e)"
    using stack_ok_hd by fastforce
  show ?thesis
  proof (cases "k = TAG_TYPE_END")
    case True
    with assms(1) r have
      f: "finish_tag (CompoundTag vs) (ReadCompoundTagState vs next_tag_name # below) root
            = Inr (io_state', root')"
      by (cases "finish_tag (CompoundTag vs) (ReadCompoundTagState vs next_tag_name # below) root")
         auto
    from finish_tag_ok [OF f] assms(2,3) fo show ?thesis by simp
  next
    case False
    note nend = this
    show ?thesis
    proof (cases "read_string s1")
      case (Inl e)
      with assms(1) r nend show ?thesis by simp
    next
      case (Inr q)
      then obtain nm s2 where n: "read_string s1 = Inr (nm, s2)" by (cases q) simp
      have rep: "stack_ok (ReadCompoundTagState vs' nm # below)"
        if "\<forall>e\<in>set vs'. homogeneous (snd e)" for vs'
        using stack_ok_replace [of "ReadCompoundTagState vs next_tag_name" below
            "ReadCompoundTagState vs' nm"] assms(2) that by simp
      show ?thesis
      proof (cases "k = TAG_TYPE_COMPOUND \<or> k = TAG_TYPE_LIST")
        case True
        show ?thesis
        proof (cases "new_read_state_for s2 k")
          case (Inl e)
          with assms(1) r n nend True show ?thesis by simp
        next
          case (Inr u)
          then obtain st s3 where c: "new_read_state_for s2 k = Inr (st, s3)" by (cases u) simp
          with assms(1) r n nend True have
            e: "io_state' = st # ReadCompoundTagState vs nm # below" "root' = root"
            by auto
          from new_read_state_for_ok [OF c] rep [OF fo] e assms(3) show ?thesis by simp
        qed
      next
        case False
        show ?thesis
        proof (cases "read_simple_tag s2 k")
          case (Inl e)
          with assms(1) r n nend False show ?thesis by simp
        next
          case (Inr u)
          then obtain t s3 where c: "read_simple_tag s2 k = Inr (t, s3)" by (cases u) simp
          with assms(1) r n nend False have
            e: "io_state' = ReadCompoundTagState (values_insert vs nm t) nm # below" "root' = root"
            by auto
          from read_simple_tag_type [OF c] fo
          have "\<forall>e\<in>set (values_insert vs nm t). homogeneous (snd e)"
            by (auto simp: values_insert_def)
          from rep [OF this] e assms(3) show ?thesis by simp
        qed
      qed
    qed
  qed
qed

lemma continue_read_list_ok:
  assumes "continue_read (s, ReadListTagState type_id vs remaining_reads # below, root)
             = Inr (s', io_state', root')"
    and "stack_ok (ReadListTagState type_id vs remaining_reads # below)" and "root_ok root"
  shows "stack_ok io_state' \<and> root_ok root'"
proof -
  from assms(2) have fo: "\<forall>t\<in>set vs. tag_type_of t = type_id \<and> homogeneous t"
    using stack_ok_hd by fastforce
  show ?thesis
  proof (cases "type_id = TAG_TYPE_COMPOUND \<or> type_id = TAG_TYPE_LIST")
    case True
    show ?thesis
    proof (cases "remaining_reads = 0")
      case z: True
      with assms(1) True have
        f: "finish_tag (ListTag type_id vs) (ReadListTagState type_id vs remaining_reads # below) root
              = Inr (io_state', root')"
        by (cases "finish_tag (ListTag type_id vs)
                     (ReadListTagState type_id vs remaining_reads # below) root") auto
      from finish_tag_ok [OF f] assms(2,3) fo show ?thesis by simp
    next
      case nz: False
      show ?thesis
      proof (cases "new_read_state_for s type_id")
        case (Inl e)
        with assms(1) True nz show ?thesis by simp
      next
        case (Inr u)
        then obtain st s1 where c: "new_read_state_for s type_id = Inr (st, s1)" by (cases u) simp
        with assms(1) True nz have
          e: "io_state' = st # ReadListTagState type_id vs (remaining_reads - 1) # below"
            "root' = root"
          by auto
        have "stack_ok (ReadListTagState type_id vs (remaining_reads - 1) # below)"
          using stack_ok_replace [of "ReadListTagState type_id vs remaining_reads" below
            "ReadListTagState type_id vs (remaining_reads - 1)"] assms(2) fo by simp
        with new_read_state_for_ok [OF c] e assms(3) show ?thesis by simp
      qed
    qed
  next
    case False
    show ?thesis
    proof (cases "read_list_elements remaining_reads type_id vs s")
      case (Inl e)
      with assms(1) False show ?thesis by simp
    next
      case (Inr u)
      then obtain vs' s1 where
        l: "read_list_elements remaining_reads type_id vs s = Inr (vs', s1)" by (cases u) simp
      with assms(1) False have
        f: "finish_tag (ListTag type_id vs') (ReadListTagState type_id vs' remaining_reads # below) root
              = Inr (io_state', root')"
        by (cases "finish_tag (ListTag type_id vs')
                     (ReadListTagState type_id vs' remaining_reads # below) root") auto
      from read_list_elements_ok [OF l fo]
      have fo': "\<forall>t\<in>set vs'. tag_type_of t = type_id \<and> homogeneous t" .
      have "stack_ok (ReadListTagState type_id vs' remaining_reads # below)"
        using stack_ok_replace [of "ReadListTagState type_id vs remaining_reads" below
            "ReadListTagState type_id vs' remaining_reads"] assms(2) fo' by simp
      from finish_tag_ok [OF f this assms(3)] fo' show ?thesis by simp
    qed
  qed
qed

lemma continue_read_ok:
  assumes "continue_read (s, io_state, root) = Inr (s', io_state', root')"
    and "stack_ok io_state" and "root_ok root"
  shows "stack_ok io_state' \<and> root_ok root'"
proof (cases "(s, io_state, root)" rule: continue_read.cases)
  case (1 s0 root0)
  with assms show ?thesis by simp
next
  case (2 s0 below root0)
  with assms show ?thesis by (auto dest: stack_ok_tl)
next
  case (3 s0 vs next_tag_name below root0)
  then have "io_state = ReadCompoundTagState vs next_tag_name # below" by simp
  with assms show ?thesis by (intro continue_read_compound_ok) simp_all
next
  case (4 s0 type_id vs remaining_reads below root0)
  then have "io_state = ReadListTagState type_id vs remaining_reads # below" by simp
  with assms show ?thesis by (intro continue_read_list_ok) simp_all
qed

lemma process_read_state_ok:
  "process_read_state st = Inr (s', io_state', root') \<Longrightarrow>
   stack_ok (fst (snd st)) \<Longrightarrow> root_ok (snd (snd st)) \<Longrightarrow> root_ok root'"
proof (induction st rule: process_read_state.induct)
  case (1 s io_state root)
  show ?case
  proof (cases "io_state = []")
    case True
    with "1.prems" show ?thesis by (simp add: process_read_state.simps)
  next
    case False
    with "1.prems"(1) obtain s1 io1 root1 where
      c: "continue_read (s, io_state, root) = Inr (s1, io1, root1)"
      and p: "process_read_state (s1, io1, root1) = Inr (s', io_state', root')"
      by (auto simp: process_read_state.simps [of s io_state root] split: sum.splits)
    from continue_read_ok [OF c] "1.prems"(2,3) have "stack_ok io1" "root_ok root1" by simp_all
    with "1.IH" [OF False c p] show ?thesis by simp
  qed
qed

lemma read_nbt_homogeneous:
  assumes "read_nbt s = Inr (r, s')" and "tag r = Some t"
  shows "homogeneous t"
proof -
  from assms obtain k s2 st s3 io_state where
    n: "new_read_state_for s2 k = Inr (st, s3)"
    and p: "process_read_state (s3, [st, ReadRootTagState], None) = Inr (s', io_state, Some t)"
    by (fastforce simp: read_nbt_def split: sum.splits if_splits)
  from new_read_state_for_ok [OF n] have "stack_ok [st, ReadRootTagState]" by simp
  from process_read_state_ok [OF p] this have "root_ok (Some t)" by (simp add: root_ok_def)
  then show ?thesis by (simp add: root_ok_def)
qed

text \<open>
  Claim C9. Every tag that a successful \<^verbatim>\<open>read_nbt\<close> returns is homogeneous: the elements
  of every list anywhere in it have the list's declared element type. Every activation
  of a frame, and with it every operation that appends to a list, keeps the invariant
  of the engine.
\<close>

theorem decoded_lists_homogeneous:
  "(read_nbt s = Inr (r, s') \<longrightarrow> tag r = Some t \<longrightarrow> homogeneous t)
   \<and> (continue_read (s0, io_state, root) = Inr (s1, io_state', root') \<longrightarrow>
        stack_ok io_state \<longrightarrow> root_ok root \<longrightarrow> stack_ok io_state' \<and> root_ok root')"
  using read_nbt_homogeneous continue_read_ok by blast

theorem decoded_lists_homogeneous_witness:
  "read_nbt (memory_input_stream
       [9, 0, 1, 65, 9, 0, 0, 0, 2, 1, 0, 0, 0, 1, 255, 10, 0, 0, 0, 1, 0]) =
     Inr (\<lparr>name = [65],
           tag = Some (ListTag 9 [ListTag 1 [ByteTag 255], ListTag 10 [CompoundTag []]])\<rparr>,
          \<lparr>m_data = [9, 0, 1, 65, 9, 0, 0, 0, 2, 1, 0, 0, 0, 1, 255, 10, 0, 0, 0, 1, 0],
           m_position = 21\<rparr>)
   \<and> homogeneous (ListTag 9 [ListTag 1 [ByteTag 255], ListTag 10 [CompoundTag []]])
   \<and> continue_read (memory_input_stream [5, 7], [ReadListTagState 1 [] 2, ReadRootTagState], None) =
       Inr (\<lparr>m_data = [5, 7], m_position = 2\<rparr>, [ReadRootTagState],
            Some (ListTag 1 [ByteTag 5, ByteTag 7]))
   \<and> stack_ok [ReadListTagState 1 [] 2, ReadRootTagState] \<and> root_ok None
   \<and> stack_ok [ReadRootTagState] \<and> root_ok (Some (ListTag 1 [ByteTag 5, ByteTag 7]))"
proof -
  let ?d = "[9, 0, 1, 65, 9, 0, 0, 0, 2, 1, 0, 0, 0, 1, 255, 10, 0, 0, 0, 1, 0] :: byte list"
  let ?t = "ListTag 9 [ListTag 1 [ByteTag 255], ListTag 10 [CompoundTag []]]"
  let ?r = "\<lparr>name = [65], tag = Some ?t\<rparr>"
  let ?s' = "\<lparr>m_data = ?d, m_position = 21\<rparr>"
  let ?u = "ListTag 1 [ByteTag 5, ByteTag 7]"
  have r: "read_nbt (memory_input_stream ?d) = Inr (?r, ?s')"
    by code_simp
  have c: "continue_read (memory_input_stream [5, 7], [ReadListTagState 1 [] 2, ReadRootTagState], None) =
       Inr (\<lparr>m_data = [5, 7], m_position = 2\<rparr>, [ReadRootTagState], Some ?u)"
    by code_simp
  have o: "stack_ok [ReadListTagState 1 [] 2, ReadRootTagState]" "root_ok None"
    by (simp_all add: root_ok_def)
  note t = decoded_lists_homogeneous [of "memory_input_stream ?d" ?r ?s' ?t
      "memory_input_stream [5, 7]" "[ReadListTagState 1 [] 2, ReadRootTagState]" None
      "\<lparr>m_data = [5, 7], m_position = 2\<rparr>" "[ReadRootTagState]" "Some ?u"]
  from t r have h: "homogeneous ?t" by simp
  from t c o have "stack_ok [ReadRootTagState] \<and> root_ok (Some ?u)" by blast
  with r c o h show ?thesis by blast
qed

section \<open>Type ids outside 0..11\<close>

lemma unknown_id_distinct:
  assumes "TAG_TYPE_INT_ARRAY < k"
  shows "k \<noteq> TAG_TYPE_END" "k \<noteq> TAG_TYPE_BYTE" "k \<noteq> TAG_TYPE_SHORT" "k \<noteq> TAG_TYPE_INT"
    "k \<noteq> TAG_TYPE_LONG" "k \<noteq> TAG_TYPE_FLOAT" "k \<noteq> TAG_TYPE_DOUBLE"
    "k \<noteq> TAG_TYPE_BYTE_ARRAY" "k \<noteq> TAG_TYPE_STRING" "k \<noteq> TAG_TYPE_LIST"
    "k \<noteq> TAG_TYPE_COMPOUND" "k \<noteq> TAG_TYPE_INT_ARRAY"
  using assms by (auto simp: TAG_TYPE_defs)

lemma read_simple_tag_unknown:
  "TAG_TYPE_INT_ARRAY < k \<Longrightarrow> read_simple_tag s k = Inl (IoError (UnknownTagType k))"
  by (simp add: read_simple_tag_def unknown_id_distinct)

lemma new_list_read_state_unknown:
  "TAG_TYPE_INT_ARRAY < k \<Longrightarrow> new_list_read_state k n = Inl (IoError (UnknownListTagType k))"
  by (simp add: new_list_read_state_def unknown_id_distinct)

text \<open>A read fails with \<^verbatim>\<open>PrematureEof\<close> and nothing else; an exception stops the loop.\<close>

lemma read_Inl: "read n s = Inl e \<Longrightarrow> e = PrematureEof"
  by (auto simp: read_def split: if_splits)

lemma read_big_endian_Inl: "read_big_endian_unsigned_int n s = Inl e \<Longrightarrow> e = PrematureEof"
  by (auto simp: read_big_endian_unsigned_int_def split: sum.splits dest: read_Inl)

lemma read_string_Inl: "read_string s = Inl e \<Longrightarrow> e = PrematureEof"
  by (auto simp: read_string_def split: sum.splits dest: read_Inl read_big_endian_Inl)

lemma process_read_state_Inl:
  "continue_read (s, f # below, root) = Inl e \<Longrightarrow> process_read_state (s, f # below, root) = Inl e"
  by (simp add: process_read_state.simps)

text \<open>
  Claim C6, as amended. A type id above 11 read as the type of a compound entry or as
  the element type of a list makes the decode fail, and the loop, whether it read the id
  in a compound frame or began the list as an element of a list, returns that failure:
  the \<^verbatim>\<open>IoError\<close> for an unknown tag type once the bytes the engine reads before it
  dispatches on the id are there (the entry name; the four bytes of the list length),
  and \<^verbatim>\<open>PrematureEof\<close> when the input ends inside them. The root header is left out.
\<close>

theorem unknown_tag_type_rejected:
  assumes "TAG_TYPE_INT_ARRAY < k" and "remaining s = k # rest"
  shows "continue_read (s, ReadCompoundTagState vs pending # below, root) =
           (case read_string (advance 1 s) of
              Inl e \<Rightarrow> Inl PrematureEof
            | Inr (nm, s2) \<Rightarrow> Inl (IoError (UnknownTagType k)))
         \<and> process_read_state (s, ReadCompoundTagState vs pending # below, root) =
             continue_read (s, ReadCompoundTagState vs pending # below, root)
         \<and> new_read_state_for s TAG_TYPE_LIST =
           (case read_big_endian_unsigned_int 4 (advance 1 s) :: error + 32 word \<times> MemoryInputStream of
              Inl e \<Rightarrow> Inl PrematureEof
            | Inr (len, s2) \<Rightarrow> Inl (IoError (UnknownListTagType k)))
         \<and> process_read_state (s, ReadListTagState TAG_TYPE_LIST acc (Suc m) # below, root) =
           (case read_big_endian_unsigned_int 4 (advance 1 s) :: error + 32 word \<times> MemoryInputStream of
              Inl e \<Rightarrow> Inl PrematureEof
            | Inr (len, s2) \<Rightarrow> Inl (IoError (UnknownListTagType k)))"
proof -
  note r = read_byte [OF assms(2)]
  have a: "continue_read (s, ReadCompoundTagState vs pending # below, root) =
           (case read_string (advance 1 s) of
              Inl e \<Rightarrow> Inl PrematureEof
            | Inr (nm, s2) \<Rightarrow> Inl (IoError (UnknownTagType k)))"
  proof (cases "read_string (advance 1 s)")
    case (Inl e)
    with read_string_Inl [OF Inl] r unknown_id_distinct(1) [OF assms(1)] show ?thesis by simp
  next
    case (Inr p)
    then show ?thesis
      using r unknown_id_distinct(1,10,11) [OF assms(1)] read_simple_tag_unknown [OF assms(1)]
      by (cases p) simp
  qed
  from a obtain e where
    "continue_read (s, ReadCompoundTagState vs pending # below, root) = Inl e"
    by (cases "read_string (advance 1 s)") auto
  from process_read_state_Inl [OF this] this
  have b: "process_read_state (s, ReadCompoundTagState vs pending # below, root) =
             continue_read (s, ReadCompoundTagState vs pending # below, root)"
    by simp
  have c: "new_read_state_for s TAG_TYPE_LIST =
           (case read_big_endian_unsigned_int 4 (advance 1 s) :: error + 32 word \<times> MemoryInputStream of
              Inl e \<Rightarrow> Inl PrematureEof
            | Inr (len, s2) \<Rightarrow> Inl (IoError (UnknownListTagType k)))"
  proof (cases "read_big_endian_unsigned_int 4 (advance 1 s) :: error + 32 word \<times> MemoryInputStream")
    case (Inl e)
    with read_big_endian_Inl [OF Inl] r show ?thesis
      by (simp add: new_read_state_for_def TAG_TYPE_defs)
  next
    case (Inr p)
    then show ?thesis
      using r new_list_read_state_unknown [OF assms(1)]
      by (cases p) (simp add: new_read_state_for_def TAG_TYPE_LIST_def TAG_TYPE_COMPOUND_def)
  qed
  have d: "process_read_state (s, ReadListTagState TAG_TYPE_LIST acc (Suc m) # below, root) =
           (case read_big_endian_unsigned_int 4 (advance 1 s) :: error + 32 word \<times> MemoryInputStream of
              Inl e \<Rightarrow> Inl PrematureEof
            | Inr (len, s2) \<Rightarrow> Inl (IoError (UnknownListTagType k)))"
  proof (cases "read_big_endian_unsigned_int 4 (advance 1 s) :: error + 32 word \<times> MemoryInputStream")
    case (Inl e)
    with c have "continue_read (s, ReadListTagState TAG_TYPE_LIST acc (Suc m) # below, root)
        = Inl PrematureEof"
      by simp
    from process_read_state_Inl [OF this] Inl show ?thesis by simp
  next
    case (Inr p)
    with c have "continue_read (s, ReadListTagState TAG_TYPE_LIST acc (Suc m) # below, root)
        = Inl (IoError (UnknownListTagType k))"
      by (cases p) simp
    from process_read_state_Inl [OF this] Inr show ?thesis by (cases p) simp
  qed
  from a b c d show ?thesis by blast
qed

theorem unknown_tag_type_rejected_witness:
  "TAG_TYPE_INT_ARRAY < 12 \<and> remaining (memory_input_stream [12, 0, 0, 0, 0]) = 12 # [0, 0, 0, 0]
   \<and> continue_read (memory_input_stream [12, 0, 0, 0, 0],
          [ReadCompoundTagState [] [], ReadRootTagState], None) = Inl (IoError (UnknownTagType 12))
   \<and> process_read_state (memory_input_stream [12, 0, 0, 0, 0],
          [ReadCompoundTagState [] [], ReadRootTagState], None) = Inl (IoError (UnknownTagType 12))
   \<and> new_read_state_for (memory_input_stream [12, 0, 0, 0, 0]) TAG_TYPE_LIST =
        Inl (IoError (UnknownListTagType 12))
   \<and> process_read_state (memory_input_stream [12, 0, 0, 0, 0],
          [ReadListTagState TAG_TYPE_LIST [] (Suc 0), ReadRootTagState], None) =
        Inl (IoError (UnknownListTagType 12))"
proof -
  let ?s = "memory_input_stream [12, 0, 0, 0, 0]"
  have h: "TAG_TYPE_INT_ARRAY < 12" "remaining ?s = 12 # [0, 0, 0, 0]"
    by (simp_all add: TAG_TYPE_defs)
  have p: "read_string (advance 1 ?s) = Inr ([], advance 3 ?s)"
    by code_simp
  have q: "(read_big_endian_unsigned_int 4 (advance 1 ?s) :: error + 32 word \<times> MemoryInputStream)
      = Inr (0, advance 5 ?s)"
    by code_simp
  from unknown_tag_type_rejected [OF h, of "[]" "[]" "[ReadRootTagState]" None "[]" 0] p q h
  show ?thesis by simp
qed

text \<open>
  Claim C6 as first stated fails at the root header, where the id 12 raises nothing and
  a \<^verbatim>\<open>RootTag\<close> with a null tag comes back, and at a compound entry of type 12 whose
  name is cut off, where the failure is \<^verbatim>\<open>PrematureEof\<close>.
\<close>

theorem unknown_tag_type_counterexample:
  "read_nbt (memory_input_stream [12, 0, 0]) =
     Inr (\<lparr>name = [], tag = None\<rparr>, \<lparr>m_data = [12, 0, 0], m_position = 3\<rparr>)
   \<and> read_nbt (memory_input_stream [10, 0, 0, 12]) = Inl PrematureEof"
  by code_simp

section \<open>The wire format\<close>

text \<open>
  Modelled from the spec: the wire format of section 6, written as an encoder. The
  repository has no serialiser, so the byte streams that count as encodings of a value
  are taken from the grammar there: integers big-endian, a string as a 16-bit length
  and its bytes, a List as element type, 32-bit count and the payloads of the elements, a
  Compound as its entries (type id, name, payload) closed by an End byte.
\<close>

fun nat_to_be :: "nat \<Rightarrow> nat \<Rightarrow> byte list" where
  "nat_to_be 0 x = []"
| "nat_to_be (Suc n) x = nat_to_be n (x div 256) @ [of_nat (x mod 256)]"

definition wire_string :: "Utf8String \<Rightarrow> byte list" where
  "wire_string bs = nat_to_be 2 (length bs) @ bs"

fun wire_payload :: "Tag \<Rightarrow> byte list" where
  "wire_payload (ByteTag w) = nat_to_be 1 (unat w)"
| "wire_payload (ShortTag w) = nat_to_be 2 (unat w)"
| "wire_payload (IntTag w) = nat_to_be 4 (unat w)"
| "wire_payload (LongTag w) = nat_to_be 8 (unat w)"
| "wire_payload (FloatTag bs) = bs"
| "wire_payload (DoubleTag bs) = bs"
| "wire_payload (ByteArrayTag bs) = nat_to_be 4 (length bs) @ bs"
| "wire_payload (StringTag bs) = wire_string bs"
| "wire_payload (ListTag type_id vs) =
     type_id # nat_to_be 4 (length vs) @ concat (map wire_payload vs)"
| "wire_payload (CompoundTag vs) =
     concat (map (\<lambda>e. tag_type_of (snd e) # wire_string (fst e) @ wire_payload (snd e)) vs)
       @ [TAG_TYPE_END]"
| "wire_payload (IntArrayTag ws) =
     nat_to_be 4 (length ws) @ concat (map (\<lambda>w. nat_to_be 4 (unat w)) ws)"

definition wire_stream :: "Utf8String \<Rightarrow> Tag \<Rightarrow> byte list" where
  "wire_stream nm t = tag_type_of t # wire_string nm @ wire_payload t"

text \<open>
  Modelled from the spec: the values the grammar can write down. A float holds four
  bytes and a double eight, a length fits its field, the elements of a list have the
  type the list declares, and that type is one of 1 to 11. The grammar also lets a list
  declare End with no elements; the reader rejects it and it is left out here.
\<close>

fun well_formed :: "Tag \<Rightarrow> bool" where
  "well_formed (FloatTag bs) = (length bs = 4)"
| "well_formed (DoubleTag bs) = (length bs = 8)"
| "well_formed (ByteArrayTag bs) = (length bs < 2 ^ 32)"
| "well_formed (StringTag bs) = (length bs < 2 ^ 16)"
| "well_formed (ListTag type_id vs) =
     (TAG_TYPE_END < type_id \<and> type_id \<le> TAG_TYPE_INT_ARRAY \<and> length vs < 2 ^ 32
      \<and> (\<forall>t\<in>set vs. tag_type_of t = type_id \<and> well_formed t))"
| "well_formed (CompoundTag vs) =
     (\<forall>e\<in>set vs. length (fst e) < 2 ^ 16 \<and> well_formed (snd e))"
| "well_formed (IntArrayTag ws) = (length ws < 2 ^ 32)"
| "well_formed _ = True"

text \<open>
  What the reader makes of a value: the entries of a compound go through
  \<^const>\<open>values_insert\<close> one after the other, so of several entries with one name the
  first stays.
\<close>

fun decoded :: "Tag \<Rightarrow> Tag" where
  "decoded (ListTag type_id vs) = ListTag type_id (map decoded vs)"
| "decoded (CompoundTag vs) =
     CompoundTag (foldl (\<lambda>acc e. values_insert acc (fst e) (decoded (snd e))) [] vs)"
| "decoded t = t"

fun distinct_names :: "Tag \<Rightarrow> bool" where
  "distinct_names (ListTag type_id vs) = (\<forall>t\<in>set vs. distinct_names t)"
| "distinct_names (CompoundTag vs) =
     (distinct (map fst vs) \<and> (\<forall>e\<in>set vs. distinct_names (snd e)))"
| "distinct_names _ = True"


text \<open>Reading back what the encoder wrote.\<close>

lemma length_nat_to_be [simp]: "length (nat_to_be n x) = n"
  by (induction n arbitrary: x) auto

lemma be_nat_snoc: "be_nat (bs @ [b]) = 256 * be_nat bs + unat b"
  by (induction bs) (auto simp: algebra_simps)

lemma be_nat_nat_to_be: "be_nat (nat_to_be n x) = x mod 256 ^ n"
proof (induction n arbitrary: x)
  case 0
  then show ?case by simp
next
  case (Suc n)
  have "unat (of_nat (x mod 256) :: byte) = x mod 256"
    by (simp add: unat_of_nat)
  then have "be_nat (nat_to_be (Suc n) x) = 256 * ((x div 256) mod 256 ^ n) + x mod 256"
    by (simp add: be_nat_snoc Suc.IH)
  also have "\<dots> = x mod 256 ^ Suc n"
    by (simp add: mod_mult2_eq)
  finally show ?case .
qed

lemma be_word_roundtrip:
  assumes "8 * n = LENGTH('a::len)"
  shows "foldl (\<lambda>acc b. push_bit 8 acc OR ucast (b::byte)) 0 (nat_to_be n (unat (w :: 'a word))) = w"
proof -
  have p: "(256::nat) ^ n = 2 ^ LENGTH('a)"
    using assms [symmetric] by (simp add: power_mult)
  have "unat (foldl (\<lambda>acc b. push_bit 8 acc OR ucast (b::byte)) (0 :: 'a word) (nat_to_be n (unat w)))
      = be_nat (nat_to_be n (unat w))"
    using assms by (intro be_unat_exact) simp
  also have "\<dots> = unat w"
    using unsigned_less [of w, where 'a = nat] by (simp add: be_nat_nat_to_be p)
  finally show ?thesis by (simp only: word_unat_eq_iff)
qed

lemma be_length_roundtrip:
  assumes "8 * n = LENGTH('a::len)" and "x < 2 ^ LENGTH('a)"
  shows "unat (foldl (\<lambda>acc b. push_bit 8 acc OR ucast (b::byte)) (0 :: 'a word) (nat_to_be n x)) = x"
proof -
  have p: "(256::nat) ^ n = 2 ^ LENGTH('a)"
    using assms(1) [symmetric] by (simp add: power_mult)
  have "unat (foldl (\<lambda>acc b. push_bit 8 acc OR ucast (b::byte)) (0 :: 'a word) (nat_to_be n x))
      = be_nat (nat_to_be n x)"
    using assms(1) by (intro be_unat_exact) simp
  also have "\<dots> = x"
    using assms(2) by (simp add: be_nat_nat_to_be p)
  finally show ?thesis .
qed


lemma read_big_endian_wire:
  assumes "remaining s = nat_to_be n (unat (w :: 'a::len word)) @ rest" and "8 * n = LENGTH('a)"
  shows "read_big_endian_unsigned_int n s = Inr (w, advance n s)"
  using read_big_endian_append [OF assms(1), of n, where 'a = 'a] be_word_roundtrip [OF assms(2), of w]
  by simp

lemma read_big_endian_wire_length:
  assumes "remaining s = nat_to_be n x @ rest" and "8 * n = LENGTH('a::len)" and "x < 2 ^ LENGTH('a)"
  shows "\<exists>w :: 'a word. read_big_endian_unsigned_int n s = Inr (w, advance n s) \<and> unat w = x"
  using read_big_endian_append [OF assms(1), of n, where 'a = 'a] be_length_roundtrip [OF assms(2,3)]
  by simp

lemma read_string_wire:
  assumes "remaining s = wire_string bs @ rest" and "length bs < 2 ^ 16"
  shows "read_string s = Inr (bs, advance (length (wire_string bs)) s)"
proof -
  from assms(1) have r: "remaining s = nat_to_be 2 (length bs) @ (bs @ rest)"
    by (simp add: wire_string_def)
  from read_big_endian_wire_length [OF r, where 'a = 16] assms(2) obtain w :: "16 word" where
    w: "read_big_endian_unsigned_int 2 s = Inr (w, advance 2 s)" "unat w = length bs"
    by auto
  have "remaining (advance 2 s) = bs @ rest" using r by simp
  from read_append [OF this refl] w show ?thesis
    by (simp add: read_string_def wire_string_def)
qed

lemma read_int_array_loop_wire:
  "remaining s = concat (map (\<lambda>w. nat_to_be 4 (unat w)) ws) @ rest \<Longrightarrow>
   read_int_array_loop (length ws) acc s = Inr (acc @ ws, advance (4 * length ws) s)"
proof (induction ws arbitrary: acc s)
  case Nil
  then show ?case by simp
next
  case (Cons w ws)
  from Cons.prems have
    r: "remaining s = nat_to_be 4 (unat w) @ (concat (map (\<lambda>w. nat_to_be 4 (unat w)) ws) @ rest)"
    by simp
  from read_big_endian_wire [OF r] have
    1: "read_big_endian_unsigned_int 4 s = Inr (w, advance 4 s)" by simp
  have "remaining (advance 4 s) = concat (map (\<lambda>w. nat_to_be 4 (unat w)) ws) @ rest"
    using r by simp
  from Cons.IH [OF this, of "acc @ [w]"] 1 show ?case
    by (simp add: twos_complement_decode_int_array_id add.commute)
qed

lemma read_simple_tag_wire:
  assumes "well_formed t" and "tag_type_of t \<noteq> TAG_TYPE_LIST" and "tag_type_of t \<noteq> TAG_TYPE_COMPOUND"
    and "remaining s = wire_payload t @ rest"
  shows "read_simple_tag s (tag_type_of t) = Inr (t, advance (length (wire_payload t)) s)"
proof (cases t)
  case (ByteTag w)
  with assms(4) read_big_endian_wire [of s 1 w rest] show ?thesis
    by (simp add: read_simple_tag_def twos_complement_decode_1_id)
next
  case (ShortTag w)
  with assms(4) read_big_endian_wire [of s 2 w rest] show ?thesis
    by (simp add: read_simple_tag_def twos_complement_decode_2_id TAG_TYPE_defs)
next
  case (IntTag w)
  with assms(4) read_big_endian_wire [of s 4 w rest] show ?thesis
    by (simp add: read_simple_tag_def twos_complement_decode_4_id TAG_TYPE_defs)
next
  case (LongTag w)
  with assms(4) read_big_endian_wire [of s 8 w rest] show ?thesis
    by (simp add: read_simple_tag_def twos_complement_decode_8_id TAG_TYPE_defs)
next
  case (FloatTag bs)
  with assms(1,4) read_append [of s bs rest 4] show ?thesis
    by (simp add: read_simple_tag_def read_float_tag_def TAG_TYPE_defs)
next
  case (DoubleTag bs)
  with assms(1,4) read_append [of s bs rest 8] show ?thesis
    by (simp add: read_simple_tag_def read_float_tag_def TAG_TYPE_defs)
next
  case (ByteArrayTag bs)
  with assms(4) have r: "remaining s = nat_to_be 4 (length bs) @ (bs @ rest)" by simp
  from read_big_endian_wire_length [OF r, where 'a = 32] assms(1) ByteArrayTag
  obtain w :: "32 word" where
    w: "read_big_endian_unsigned_int 4 s = Inr (w, advance 4 s)" "unat w = length bs"
    by auto
  have "remaining (advance 4 s) = bs @ rest" using r by simp
  from read_append [OF this refl] w ByteArrayTag show ?thesis
    by (simp add: read_simple_tag_def read_byte_array_tag_def TAG_TYPE_defs)
next
  case (StringTag bs)
  with assms(1,4) read_string_wire [of s bs rest] show ?thesis
    by (simp add: read_simple_tag_def read_string_tag_def TAG_TYPE_defs)
next
  case (ListTag k vs)
  with assms(2) show ?thesis by simp
next
  case (CompoundTag vs)
  with assms(3) show ?thesis by simp
next
  case (IntArrayTag ws)
  with assms(4) have
    r: "remaining s = nat_to_be 4 (length ws) @ (concat (map (\<lambda>w. nat_to_be 4 (unat w)) ws) @ rest)"
    by simp
  from read_big_endian_wire_length [OF r, where 'a = 32] assms(1) IntArrayTag
  obtain w :: "32 word" where
    w: "read_big_endian_unsigned_int 4 s = Inr (w, advance 4 s)" "unat w = length ws"
    by auto
  have "remaining (advance 4 s) = concat (map (\<lambda>w. nat_to_be 4 (unat w)) ws) @ rest"
    using r by simp
  from read_int_array_loop_wire [OF this, of "[]"] w IntArrayTag show ?thesis
    by (simp add: read_simple_tag_def read_int_array_tag_def TAG_TYPE_defs length_concat
        comp_def sum_list_triv mult.commute)
qed


text \<open>
  The engine on the encoding of a container. \<open>deliver\<close> is \<^verbatim>\<open>finish_tag\<close> seen from the
  frames beneath the finished one, and \<open>resume\<close> the rest of the loop after a delivery.
  A container tag \<open>decodes\<close> when, on a cursor that holds its payload, its frame is
  created and the loop, from that frame on any stack, delivers the tag to the stack and
  goes on behind the payload.
\<close>

definition deliver :: "Tag \<Rightarrow> IoReadState \<Rightarrow> Tag option \<Rightarrow> error + (IoReadState \<times> Tag option)" where
  "deliver t below root = finish_tag t (ReadRootTagState # below) root"

definition resume :: "Tag \<Rightarrow> MemoryInputStream \<Rightarrow> IoReadState \<Rightarrow> Tag option \<Rightarrow> error + engine" where
  "resume t s below root =
     (case deliver t below root of
        Inl e \<Rightarrow> Inl e
      | Inr (io_state', root') \<Rightarrow> process_read_state (s, io_state', root'))"

definition container :: "Tag \<Rightarrow> bool" where
  "container t = (tag_type_of t = TAG_TYPE_LIST \<or> tag_type_of t = TAG_TYPE_COMPOUND)"

definition wire_entries :: "(Utf8String \<times> Tag) list \<Rightarrow> byte list" where
  "wire_entries vs =
     concat (map (\<lambda>e. tag_type_of (snd e) # wire_string (fst e) @ wire_payload (snd e)) vs)"

definition decodes :: "Tag \<Rightarrow> bool" where
  "decodes t =
     (\<forall>s rest. remaining s = wire_payload t @ rest \<longrightarrow>
        (\<exists>f s1. new_read_state_for s (tag_type_of t) = Inr (f, s1) \<and>
           (\<forall>below root. process_read_state (s1, f # below, root) =
              resume (decoded t) (advance (length (wire_payload t)) s) below root)))"

lemma finish_tag_deliver: "finish_tag t (f # below) root = deliver t below root"
  by (cases below) (simp_all add: deliver_def)

lemma process_read_state_step:
  "process_read_state (s, f # below, root) =
     (case continue_read (s, f # below, root) of
        Inl e \<Rightarrow> Inl e
      | Inr st' \<Rightarrow> process_read_state st')"
  by (simp add: process_read_state.simps)

lemma tag_type_of_not_end [simp]: "tag_type_of t \<noteq> TAG_TYPE_END"
  by (cases t) (simp_all add: TAG_TYPE_defs)

lemma decoded_simple: "\<not> container t \<Longrightarrow> decoded t = t"
  by (cases t) (simp_all add: container_def)

lemma tag_type_of_decoded [simp]: "tag_type_of (decoded t) = tag_type_of t"
  by (cases t) simp_all

lemma deliver_compound:
  "deliver t (ReadCompoundTagState acc nm # below) root =
     Inr (ReadCompoundTagState (values_insert acc nm t) nm # below, root)"
  by (simp add: deliver_def)

lemma deliver_list:
  "dynamic_cast_ok k t \<Longrightarrow>
   deliver t (ReadListTagState k acc n # below) root =
     Inr (ReadListTagState k (acc @ [t]) n # below, root)"
  by (simp add: deliver_def)

lemma compound_entry_step:
  assumes "length nm < 2 ^ 16" and "well_formed v" and "container v \<longrightarrow> decodes v"
    and "remaining s = tag_type_of v # wire_string nm @ wire_payload v @ rest"
  shows "process_read_state (s, ReadCompoundTagState acc pending # below, root) =
           process_read_state
             (advance (length (tag_type_of v # wire_string nm @ wire_payload v)) s,
              ReadCompoundTagState (values_insert acc nm (decoded v)) nm # below, root)"
proof -
  let ?k = "tag_type_of v"
  let ?s2 = "advance (1 + length (wire_string nm)) s"
  let ?s3 = "advance (length (wire_payload v)) ?s2"
  have e: "advance (length (tag_type_of v # wire_string nm @ wire_payload v)) s = ?s3"
    by (simp add: add.assoc)
  have 1: "read_big_endian_unsigned_int 1 s = Inr (?k, advance 1 s)"
    using read_byte [OF assms(4)] by simp
  have "remaining (advance 1 s) = wire_string nm @ (wire_payload v @ rest)"
    using assms(4) by simp
  from read_string_wire [OF this assms(1)]
  have 2: "read_string (advance 1 s) = Inr (nm, ?s2)" by simp
  have r2: "remaining ?s2 = wire_payload v @ rest"
    using assms(4) by simp
  show ?thesis
  proof (cases "container v")
    case True
    with assms(3) have "decodes v" by simp
    with r2 obtain f s1 where
      n: "new_read_state_for ?s2 ?k = Inr (f, s1)"
      and p: "\<And>below root. process_read_state (s1, f # below, root) =
                resume (decoded v) ?s3 below root"
      unfolding decodes_def by blast
    have "continue_read (s, ReadCompoundTagState acc pending # below, root) =
        Inr (s1, f # ReadCompoundTagState acc nm # below, root)"
      using 1 2 n True by (auto simp: container_def)
    then have "process_read_state (s, ReadCompoundTagState acc pending # below, root) =
        process_read_state (s1, f # ReadCompoundTagState acc nm # below, root)"
      by (simp add: process_read_state_step)
    also have "\<dots> = process_read_state
        (?s3, ReadCompoundTagState (values_insert acc nm (decoded v)) nm # below, root)"
      by (simp add: p resume_def deliver_compound)
    finally show ?thesis by (simp only: e)
  next
    case False
    then have t: "?k \<noteq> TAG_TYPE_LIST" "?k \<noteq> TAG_TYPE_COMPOUND"
      by (simp_all add: container_def)
    from read_simple_tag_wire [OF assms(2) t r2]
    have 3: "read_simple_tag ?s2 ?k = Inr (v, ?s3)" .
    have "continue_read (s, ReadCompoundTagState acc pending # below, root) =
        Inr (?s3, ReadCompoundTagState (values_insert acc nm v) nm # below, root)"
      using 1 2 3 t by simp
    then have "process_read_state (s, ReadCompoundTagState acc pending # below, root) =
        process_read_state (?s3, ReadCompoundTagState (values_insert acc nm v) nm # below, root)"
      by (simp add: process_read_state_step)
    then show ?thesis by (simp only: e decoded_simple [OF False])
  qed
qed

lemma compound_body:
  assumes "\<forall>e\<in>set vs. length (fst e) < 2 ^ 16 \<and> well_formed (snd e)
             \<and> (container (snd e) \<longrightarrow> decodes (snd e))"
    and "remaining s = wire_entries vs @ TAG_TYPE_END # rest"
  shows "process_read_state (s, ReadCompoundTagState acc pending # below, root) =
           resume (CompoundTag (foldl (\<lambda>acc e. values_insert acc (fst e) (decoded (snd e))) acc vs))
             (advance (length (wire_entries vs) + 1) s) below root"
  using assms
proof (induction vs arbitrary: acc pending s)
  case Nil
  then have "remaining s = TAG_TYPE_END # rest" by (simp add: wire_entries_def)
  from read_byte [OF this]
  have "continue_read (s, ReadCompoundTagState acc pending # below, root) =
      (case deliver (CompoundTag acc) below root of
         Inl e \<Rightarrow> Inl e
       | Inr (io_state', root') \<Rightarrow> Inr (advance (Suc 0) s, io_state', root'))"
    by (simp add: finish_tag_deliver)
  then show ?case
    by (simp add: process_read_state_step resume_def wire_entries_def split: sum.splits)
next
  case (Cons e vs)
  obtain nm v where e: "e = (nm, v)" by (cases e)
  let ?n = "length (tag_type_of v # wire_string nm @ wire_payload v)"
  from Cons.prems(1) e have h: "length nm < 2 ^ 16" "well_formed v" "container v \<longrightarrow> decodes v"
    by simp_all
  from Cons.prems(2) e have
    r: "remaining s = tag_type_of v # wire_string nm @ wire_payload v
          @ (wire_entries vs @ TAG_TYPE_END # rest)"
    by (simp add: wire_entries_def)
  then have r': "remaining (advance ?n s) = wire_entries vs @ TAG_TYPE_END # rest"
    by simp
  from Cons.prems(1) have
    "\<forall>e\<in>set vs. length (fst e) < 2 ^ 16 \<and> well_formed (snd e)
             \<and> (container (snd e) \<longrightarrow> decodes (snd e))" by simp
  from Cons.IH [OF this r', of "values_insert acc nm (decoded v)" nm]
    compound_entry_step [OF h r, of acc pending below root]
  show ?case
    by (simp add: e wire_entries_def add.assoc)
qed

lemma list_body_containers:
  assumes "k = TAG_TYPE_COMPOUND \<or> k = TAG_TYPE_LIST"
    and "\<forall>t\<in>set vs. tag_type_of t = k \<and> decodes t"
    and "remaining s = concat (map wire_payload vs) @ rest"
  shows "process_read_state (s, ReadListTagState k acc (length vs) # below, root) =
           resume (ListTag k (acc @ map decoded vs))
             (advance (length (concat (map wire_payload vs))) s) below root"
  using assms(2,3)
proof (induction vs arbitrary: acc s)
  case Nil
  have "continue_read (s, ReadListTagState k acc 0 # below, root) =
      (case deliver (ListTag k acc) below root of
         Inl e \<Rightarrow> Inl e
       | Inr (io_state', root') \<Rightarrow> Inr (s, io_state', root'))"
    using assms(1) by (simp add: finish_tag_deliver)
  then show ?case
    by (simp add: process_read_state_step resume_def split: sum.splits)
next
  case (Cons v vs)
  from Cons.prems(1) have kv: "tag_type_of v = k" and d: "decodes v" by simp_all
  let ?n = "length (wire_payload v)"
  from Cons.prems(2) have r: "remaining s = wire_payload v @ (concat (map wire_payload vs) @ rest)"
    by simp
  with d kv obtain f s1 where
    n: "new_read_state_for s k = Inr (f, s1)"
    and p: "\<And>below root. process_read_state (s1, f # below, root) =
              resume (decoded v) (advance ?n s) below root"
    unfolding decodes_def by blast
  have c: "dynamic_cast_ok k (decoded v)" by (simp add: dynamic_cast_ok_def kv)
  have "continue_read (s, ReadListTagState k acc (length (v # vs)) # below, root) =
      Inr (s1, f # ReadListTagState k acc (length vs) # below, root)"
    using assms(1) n by auto
  then have "process_read_state (s, ReadListTagState k acc (length (v # vs)) # below, root) =
      process_read_state (s1, f # ReadListTagState k acc (length vs) # below, root)"
    by (simp only: process_read_state_step sum.case)
  also have "\<dots> = process_read_state
      (advance ?n s, ReadListTagState k (acc @ [decoded v]) (length vs) # below, root)"
    by (simp add: p resume_def deliver_list [OF c])
  also have "\<dots> = resume (ListTag k ((acc @ [decoded v]) @ map decoded vs))
      (advance (length (concat (map wire_payload vs))) (advance ?n s)) below root"
    using Cons.prems(1) r by (intro Cons.IH) simp_all
  finally show ?case by simp
qed


lemma read_list_elements_wire:
  assumes "k \<noteq> TAG_TYPE_COMPOUND" and "k \<noteq> TAG_TYPE_LIST"
  shows "\<forall>t\<in>set vs. tag_type_of t = k \<and> well_formed t \<Longrightarrow>
     remaining s = concat (map wire_payload vs) @ rest \<Longrightarrow>
     read_list_elements (length vs) k acc s =
       Inr (acc @ vs, advance (length (concat (map wire_payload vs))) s)"
proof (induction vs arbitrary: acc s)
  case Nil
  then show ?case by simp
next
  case (Cons v vs)
  from Cons.prems(1) have kv: "tag_type_of v = k" and w: "well_formed v" by simp_all
  from Cons.prems(2) have r: "remaining s = wire_payload v @ (concat (map wire_payload vs) @ rest)"
    by simp
  from read_simple_tag_wire [OF w _ _ r] assms kv
  have 1: "read_simple_tag s k = Inr (v, advance (length (wire_payload v)) s)" by simp
  have c: "dynamic_cast_ok k v" by (simp add: dynamic_cast_ok_def kv)
  have "read_list_elements (length vs) k (acc @ [v]) (advance (length (wire_payload v)) s) =
      Inr ((acc @ [v]) @ vs,
           advance (length (concat (map wire_payload vs))) (advance (length (wire_payload v)) s))"
    using Cons.prems(1) r by (intro Cons.IH) simp_all
  with 1 c show ?case by simp
qed

lemma list_body_simple:
  assumes "k \<noteq> TAG_TYPE_COMPOUND" and "k \<noteq> TAG_TYPE_LIST"
    and "\<forall>t\<in>set vs. tag_type_of t = k \<and> well_formed t"
    and "remaining s = concat (map wire_payload vs) @ rest"
  shows "process_read_state (s, ReadListTagState k acc (length vs) # below, root) =
           resume (ListTag k (acc @ vs))
             (advance (length (concat (map wire_payload vs))) s) below root"
proof -
  from read_list_elements_wire [OF assms, of acc]
  have "continue_read (s, ReadListTagState k acc (length vs) # below, root) =
      (case deliver (ListTag k (acc @ vs)) below root of
         Inl e \<Rightarrow> Inl e
       | Inr (io_state', root') \<Rightarrow>
           Inr (advance (length (concat (map wire_payload vs))) s, io_state', root'))"
    using assms(1,2) by (simp add: finish_tag_deliver)
  then show ?thesis
    by (simp add: process_read_state_step resume_def split: sum.splits)
qed

lemma word_of_unat: "unat (k :: 'a::len word) = c \<Longrightarrow> k = of_nat c"
  by auto

lemma new_read_state_for_list_wire:
  assumes "TAG_TYPE_END < k" and "k \<le> TAG_TYPE_INT_ARRAY" and "n < 2 ^ 32"
    and "remaining s = k # nat_to_be 4 n @ rest"
  shows "new_read_state_for s TAG_TYPE_LIST = Inr (ReadListTagState k [] n, advance 5 s)"
proof -
  have 1: "read_big_endian_unsigned_int 1 s = Inr (k, advance 1 s)"
    using read_byte [OF assms(4)] by simp
  have "remaining (advance 1 s) = nat_to_be 4 n @ rest" using assms(4) by simp
  from read_big_endian_wire_length [OF this, where 'a = 32] assms(3) obtain w :: "32 word" where
    2: "read_big_endian_unsigned_int 4 (advance 1 s) = Inr (w, advance 4 (advance 1 s))"
      "unat w = n"
    by auto
  have "unat k \<noteq> 0" "unat k \<le> 11"
    using assms(1,2) by (simp_all add: TAG_TYPE_defs word_less_nat_alt word_le_nat_alt)
  then have "unat k = 1 \<or> unat k = 2 \<or> unat k = 3 \<or> unat k = 4 \<or> unat k = 5 \<or> unat k = 6
      \<or> unat k = 7 \<or> unat k = 8 \<or> unat k = 9 \<or> unat k = 10 \<or> unat k = 11"
    by arith
  then have k: "k = 1 \<or> k = 2 \<or> k = 3 \<or> k = 4 \<or> k = 5 \<or> k = 6
      \<or> k = 7 \<or> k = 8 \<or> k = 9 \<or> k = 10 \<or> k = 11"
    using word_of_unat [of k] by (elim disjE) simp_all
  have 3: "new_list_read_state k n = Inr (ReadListTagState k [] n)"
    using k by (elim disjE) (simp_all add: new_list_read_state_def TAG_TYPE_defs)
  show ?thesis
    using 1 2 3 by (simp add: new_read_state_for_def TAG_TYPE_LIST_def TAG_TYPE_COMPOUND_def)
qed


lemma decodes_container: "well_formed t \<Longrightarrow> container t \<Longrightarrow> decodes t"
proof (induction t)
  case (ListTag k vs)
  from ListTag.prems(1) have
    b: "TAG_TYPE_END < k" "k \<le> TAG_TYPE_INT_ARRAY" "length vs < 2 ^ 32"
    and el: "\<forall>t\<in>set vs. tag_type_of t = k \<and> well_formed t"
    by simp_all
  let ?body = "concat (map wire_payload vs)"
  have "\<exists>f s1. new_read_state_for s (tag_type_of (ListTag k vs)) = Inr (f, s1) \<and>
           (\<forall>below root. process_read_state (s1, f # below, root) =
              resume (decoded (ListTag k vs)) (advance (length (wire_payload (ListTag k vs))) s)
                below root)"
    if r: "remaining s = wire_payload (ListTag k vs) @ rest" for s rest
  proof -
    from r have r1: "remaining s = k # nat_to_be 4 (length vs) @ (?body @ rest)" by simp
    from new_read_state_for_list_wire [OF b r1]
    have n: "new_read_state_for s TAG_TYPE_LIST = Inr (ReadListTagState k [] (length vs), advance 5 s)" .
    have r2: "remaining (advance 5 s) = ?body @ rest" using r1 by simp
    have e: "advance (length ?body) (advance 5 s) = advance (length (wire_payload (ListTag k vs))) s"
      by simp
    have "process_read_state (advance 5 s, ReadListTagState k [] (length vs) # below, root) =
        resume (decoded (ListTag k vs)) (advance (length (wire_payload (ListTag k vs))) s) below root"
      for below root
    proof (cases "k = TAG_TYPE_COMPOUND \<or> k = TAG_TYPE_LIST")
      case True
      have "\<forall>t\<in>set vs. tag_type_of t = k \<and> decodes t"
        using el True ListTag.IH by (auto simp: container_def)
      from list_body_containers [OF True this r2, of "[]" below root] show ?thesis
        by (simp only: e decoded.simps append_Nil)
    next
      case False
      then have "\<forall>t\<in>set vs. \<not> container t" using el by (auto simp: container_def)
      then have "map decoded vs = vs" by (intro map_idI) (simp add: decoded_simple)
      with list_body_simple [OF _ _ el r2, of "[]" below root] False show ?thesis
        by (simp only: e decoded.simps append_Nil) simp
    qed
    with n show ?thesis by auto
  qed
  then show ?case unfolding decodes_def by blast
next
  case (CompoundTag vs)
  have h: "\<forall>e\<in>set vs. length (fst e) < 2 ^ 16 \<and> well_formed (snd e)
             \<and> (container (snd e) \<longrightarrow> decodes (snd e))"
  proof
    fix e assume e: "e \<in> set vs"
    with CompoundTag.prems(1) have w: "length (fst e) < 2 ^ 16" "well_formed (snd e)" by simp_all
    have "snd e \<in> Basic_BNFs.snds e" by (cases e) simp
    from CompoundTag.IH [OF e this w(2)] w
    show "length (fst e) < 2 ^ 16 \<and> well_formed (snd e) \<and> (container (snd e) \<longrightarrow> decodes (snd e))"
      by simp
  qed
  have "\<exists>f s1. new_read_state_for s (tag_type_of (CompoundTag vs)) = Inr (f, s1) \<and>
           (\<forall>below root. process_read_state (s1, f # below, root) =
              resume (decoded (CompoundTag vs)) (advance (length (wire_payload (CompoundTag vs))) s)
                below root)"
    if r: "remaining s = wire_payload (CompoundTag vs) @ rest" for s rest
  proof -
    from r have r1: "remaining s = wire_entries vs @ TAG_TYPE_END # rest"
      by (simp add: wire_entries_def)
    have n: "new_read_state_for s TAG_TYPE_COMPOUND = Inr (ReadCompoundTagState [] [], s)"
      by (simp add: new_read_state_for_def)
    from compound_body [OF h r1, of "[]" "[]"] n show ?thesis
      by (simp add: wire_entries_def)
  qed
  then show ?case unfolding decodes_def by blast
qed (simp_all add: container_def TAG_TYPE_defs)

lemma read_nbt_wire:
  assumes "well_formed t" and "container t" and "length nm < 2 ^ 16"
  shows "read_nbt (memory_input_stream (wire_stream nm t @ rest)) =
           Inr (\<lparr>name = nm, tag = Some (decoded t)\<rparr>,
                \<lparr>m_data = wire_stream nm t @ rest, m_position = length (wire_stream nm t)\<rparr>)"
proof -
  let ?s = "memory_input_stream (wire_stream nm t @ rest)"
  let ?s2 = "advance (1 + length (wire_string nm)) ?s"
  let ?s3 = "advance (length (wire_payload t)) ?s2"
  have r: "remaining ?s = tag_type_of t # wire_string nm @ wire_payload t @ rest"
    by (simp add: wire_stream_def)
  have 1: "read_big_endian_unsigned_int 1 ?s = Inr (tag_type_of t, advance 1 ?s)"
    using read_byte [OF r] by simp
  have "remaining (advance 1 ?s) = wire_string nm @ (wire_payload t @ rest)"
    using r by simp
  from read_string_wire [OF this assms(3)]
  have 2: "read_string (advance 1 ?s) = Inr (nm, ?s2)" by simp
  have "remaining ?s2 = wire_payload t @ rest" using r by simp
  with decodes_container [OF assms(1,2)] obtain f s1 where
    n: "new_read_state_for ?s2 (tag_type_of t) = Inr (f, s1)"
    and p: "\<And>below root. process_read_state (s1, f # below, root) =
              resume (decoded t) ?s3 below root"
    unfolding decodes_def by blast
  have "process_read_state (s1, [f, ReadRootTagState], None) =
      process_read_state (?s3, [ReadRootTagState], Some (decoded t))"
    by (simp add: p resume_def deliver_def)
  also have "\<dots> = Inr (?s3, [], Some (decoded t))"
    by (simp add: process_read_state.simps)
  finally have 3: "process_read_state (s1, [f, ReadRootTagState], None) =
      Inr (?s3, [], Some (decoded t))" .
  have e: "?s3 = \<lparr>m_data = wire_stream nm t @ rest, m_position = length (wire_stream nm t)\<rparr>"
    by (simp add: advance_def memory_input_stream_def wire_stream_def)
  from assms(2) 1 2 n 3 show ?thesis
    unfolding e by (auto simp: read_nbt_def container_def)
qed

section \<open>Decoding a well-formed stream\<close>

text \<open>Names that do not repeat are all kept, and the first of equal names is the one found.\<close>

lemma foldl_values_insert_distinct:
  "distinct (map fst acc @ map fst vs) \<Longrightarrow>
   foldl (\<lambda>acc e. values_insert acc (fst e) (g (snd e))) acc vs =
     acc @ map (\<lambda>e. (fst e, g (snd e))) vs"
proof (induction vs arbitrary: acc)
  case Nil
  then show ?case by simp
next
  case (Cons e vs)
  from Cons.prems have "fst e \<notin> fst ` set acc" by auto
  then have "map_of acc (fst e) = None" by (simp add: map_of_eq_None_iff)
  then have v: "values_insert acc (fst e) (g (snd e)) = acc @ [(fst e, g (snd e))]"
    by (simp add: values_insert_def)
  from Cons.prems have "distinct (map fst (acc @ [(fst e, g (snd e))]) @ map fst vs)" by auto
  from Cons.IH [OF this] v show ?case by simp
qed

lemma decoded_distinct: "distinct_names t \<Longrightarrow> decoded t = t"
proof (induction t)
  case (ListTag k vs)
  then have "map decoded vs = vs" by (intro map_idI) simp
  then show ?case by simp
next
  case (CompoundTag vs)
  from CompoundTag.prems have d: "distinct (map fst ([] @ vs))" by simp
  have "map (\<lambda>e. (fst e, decoded (snd e))) vs = vs"
  proof (intro map_idI)
    fix e assume e: "e \<in> set vs"
    have "snd e \<in> Basic_BNFs.snds e" by (cases e) simp
    from CompoundTag.IH [OF e this] CompoundTag.prems e show "(fst e, decoded (snd e)) = e"
      by simp
  qed
  with foldl_values_insert_distinct [of "[]" vs decoded] d show ?case by simp
qed simp_all

lemma map_of_values_insert:
  "map_of (values_insert acc n v) k =
     (case map_of acc k of Some x \<Rightarrow> Some x | None \<Rightarrow> if k = n then Some v else None)"
  by (auto simp: values_insert_def map_add_def split: option.splits)

lemma map_of_foldl_values_insert:
  "map_of (foldl (\<lambda>acc e. values_insert acc (fst e) (g (snd e))) acc vs) k =
     (case map_of acc k of Some x \<Rightarrow> Some x | None \<Rightarrow> map_option g (map_of vs k))"
proof (induction vs arbitrary: acc)
  case Nil
  then show ?case by (simp split: option.splits)
next
  case (Cons e vs)
  show ?case
    by (cases e) (simp add: Cons.IH map_of_values_insert split: option.splits)
qed

text \<open>
  Claim C1, as amended. For every well-formed encoded stream whose root is a List or a
  Compound (root type id, name, payload; no list declares the element type End and no
  compound repeats a name), whatever follows it, \<^verbatim>\<open>read_nbt\<close> returns the root name and
  exactly the encoded value, the same kinds, numbers and bytes throughout, and leaves
  the cursor right behind the encoding. Roots of other kinds are left out.
\<close>

theorem read_nbt_reproduces_container:
  assumes "well_formed t" and "container t" and "distinct_names t" and "length nm < 2 ^ 16"
  shows "read_nbt (memory_input_stream (wire_stream nm t @ rest)) =
           Inr (\<lparr>name = nm, tag = Some t\<rparr>,
                \<lparr>m_data = wire_stream nm t @ rest, m_position = length (wire_stream nm t)\<rparr>)"
  using read_nbt_wire [OF assms(1,2,4), of rest] decoded_distinct [OF assms(3)] by simp

theorem read_nbt_reproduces_container_witness:
  "well_formed (CompoundTag [([120], IntTag 42)]) \<and> container (CompoundTag [([120], IntTag 42)])
   \<and> distinct_names (CompoundTag [([120], IntTag 42)]) \<and> length ([] :: byte list) < 2 ^ 16
   \<and> read_nbt (memory_input_stream [10, 0, 0, 3, 0, 1, 120, 0, 0, 0, 42, 0]) =
        Inr (\<lparr>name = [], tag = Some (CompoundTag [([120], IntTag 42)])\<rparr>,
             \<lparr>m_data = [10, 0, 0, 3, 0, 1, 120, 0, 0, 0, 42, 0], m_position = 12\<rparr>)"
proof -
  let ?t = "CompoundTag [([120], IntTag 42)]"
  have h: "well_formed ?t" "container ?t" "distinct_names ?t" "length ([] :: byte list) < 2 ^ 16"
    by (simp_all add: container_def)
  have w: "wire_stream [] ?t = [10, 0, 0, 3, 0, 1, 120, 0, 0, 0, 42, 0]"
    by code_simp
  from read_nbt_reproduces_container [OF h, of "[]"] h show ?thesis
    by (simp only: w append_Nil2 list.size) simp
qed

text \<open>
  Claim C1 as first stated fails on the encoding of a root Byte, which comes back with
  a null tag and its payload unread, and on the encoding of an empty root List of End,
  which is rejected.
\<close>

theorem simple_root_counterexample:
  "wire_stream [] (ByteTag 5) = [1, 0, 0, 5]
   \<and> read_nbt (memory_input_stream [1, 0, 0, 5]) =
       Inr (\<lparr>name = [], tag = None\<rparr>, \<lparr>m_data = [1, 0, 0, 5], m_position = 3\<rparr>)
   \<and> wire_stream [] (ListTag TAG_TYPE_END []) = [9, 0, 0, 0, 0, 0, 0, 0]
   \<and> read_nbt (memory_input_stream [9, 0, 0, 0, 0, 0, 0, 0]) = Inl (IoError ListTagEnd)"
  by code_simp

section \<open>Entries with the same name\<close>

text \<open>
  Claim C5, as amended. When the body of a Compound holds several entries with the same
  name, the decoded mapping holds the value of the first of them: the mapping looked up
  at a name gives what the first entry of that name in the body decodes to. Each later
  entry is decoded and dropped, since inserting under a name the mapping already has
  leaves the mapping as it is.
\<close>

theorem compound_first_entry_kept:
  assumes "well_formed (CompoundTag vs)" and "length nm < 2 ^ 16"
  shows "(\<exists>ws. read_nbt (memory_input_stream (wire_stream nm (CompoundTag vs) @ rest)) =
            Inr (\<lparr>name = nm, tag = Some (CompoundTag ws)\<rparr>,
                 \<lparr>m_data = wire_stream nm (CompoundTag vs) @ rest,
                  m_position = length (wire_stream nm (CompoundTag vs))\<rparr>)
          \<and> (\<forall>k. map_of ws k = map_option decoded (map_of vs k)))
         \<and> (map_of acc k \<noteq> None \<longrightarrow> values_insert acc k t = acc)"
proof -
  have c: "container (CompoundTag vs)" by (simp add: container_def)
  let ?ws = "foldl (\<lambda>acc e. values_insert acc (fst e) (decoded (snd e))) [] vs"
  have "\<forall>k. map_of ?ws k = map_option decoded (map_of vs k)"
    by (simp add: map_of_foldl_values_insert)
  with read_nbt_wire [OF assms(1) c assms(2), of rest]
  have "\<exists>ws. read_nbt (memory_input_stream (wire_stream nm (CompoundTag vs) @ rest)) =
            Inr (\<lparr>name = nm, tag = Some (CompoundTag ws)\<rparr>,
                 \<lparr>m_data = wire_stream nm (CompoundTag vs) @ rest,
                  m_position = length (wire_stream nm (CompoundTag vs))\<rparr>)
          \<and> (\<forall>k. map_of ws k = map_option decoded (map_of vs k))"
    by (intro exI [of _ ?ws]) simp
  moreover have "map_of acc k \<noteq> None \<longrightarrow> values_insert acc k t = acc"
    by (simp add: values_insert_def)
  ultimately show ?thesis by blast
qed

theorem compound_first_entry_kept_witness:
  "well_formed (CompoundTag [([97], ByteTag 5), ([97], ByteTag 7)]) \<and> length ([] :: byte list) < 2 ^ 16
   \<and> wire_stream [] (CompoundTag [([97], ByteTag 5), ([97], ByteTag 7)]) =
        [10, 0, 0, 1, 0, 1, 97, 5, 1, 0, 1, 97, 7, 0]
   \<and> (\<exists>ws. read_nbt (memory_input_stream [10, 0, 0, 1, 0, 1, 97, 5, 1, 0, 1, 97, 7, 0]) =
            Inr (\<lparr>name = [], tag = Some (CompoundTag ws)\<rparr>,
                 \<lparr>m_data = [10, 0, 0, 1, 0, 1, 97, 5, 1, 0, 1, 97, 7, 0], m_position = 14\<rparr>)
          \<and> map_of ws [97] = Some (ByteTag 5))"
proof -
  let ?vs = "[([97], ByteTag 5), ([97], ByteTag 7)] :: (Utf8String \<times> Tag) list"
  have h: "well_formed (CompoundTag ?vs)" "length ([] :: byte list) < 2 ^ 16"
    by simp_all
  have w: "wire_stream [] (CompoundTag ?vs) = [10, 0, 0, 1, 0, 1, 97, 5, 1, 0, 1, 97, 7, 0]"
    by code_simp
  from compound_first_entry_kept [OF h, of "[]"] obtain ws where
    r: "read_nbt (memory_input_stream (wire_stream [] (CompoundTag ?vs) @ [])) =
            Inr (\<lparr>name = [], tag = Some (CompoundTag ws)\<rparr>,
                 \<lparr>m_data = wire_stream [] (CompoundTag ?vs) @ [],
                  m_position = length (wire_stream [] (CompoundTag ?vs))\<rparr>)"
    and m: "\<forall>k. map_of ws k = map_option decoded (map_of ?vs k)"
    by blast
  from m have "map_of ws [97] = Some (ByteTag 5)" by simp
  with r h w show ?thesis
    by (simp only: w append_Nil2) simp
qed

text \<open>
  Claim C5 as first stated has the last entry win. Of two entries named "a" with the
  bytes 5 and 7 the mapping keeps 5.
\<close>

theorem duplicate_name_counterexample:
  "read_nbt (memory_input_stream [10, 0, 0, 1, 0, 1, 97, 5, 1, 0, 1, 97, 7, 0]) =
     Inr (\<lparr>name = [], tag = Some (CompoundTag [([97], ByteTag 5)])\<rparr>,
          \<lparr>m_data = [10, 0, 0, 1, 0, 1, 97, 5, 1, 0, 1, 97, 7, 0], m_position = 14\<rparr>)"
  by code_simp

section \<open>Truncated streams\<close>

text \<open>
  \<open>trunc n s\<close> is the cursor \<open>s\<close> over the first \<open>n\<close> bytes of its data. A reader
  \<open>cuts\<close> when a successful run only moves the cursor forwards and, rerun on data cut
  at \<open>n\<close> somewhere from the cursor on, returns the same result if it stopped at or
  before \<open>n\<close>, and raises \<^verbatim>\<open>PrematureEof\<close> if it went beyond.
\<close>

definition trunc :: "nat \<Rightarrow> MemoryInputStream \<Rightarrow> MemoryInputStream" where
  "trunc n s = s\<lparr>m_data := take n (m_data s)\<rparr>"

definition cuts :: "(MemoryInputStream \<Rightarrow> error + ('a \<times> MemoryInputStream)) \<Rightarrow> bool" where
  "cuts f =
     (\<forall>s v s'. f s = Inr (v, s') \<longrightarrow>
        m_position s \<le> m_position s' \<and> m_size s' = m_size s \<and>
        (\<forall>n. m_position s \<le> n \<and> n \<le> m_size s \<longrightarrow>
           f (trunc n s) =
             (if m_position s' \<le> n then Inr (v, trunc n s') else Inl PrematureEof)))"

lemma cutsI:
  assumes "\<And>s v s'. f s = Inr (v, s') \<Longrightarrow> m_position s \<le> m_position s' \<and> m_size s' = m_size s"
    and "\<And>s v s' n. f s = Inr (v, s') \<Longrightarrow> m_position s \<le> n \<Longrightarrow> n \<le> m_size s \<Longrightarrow>
           f (trunc n s) = (if m_position s' \<le> n then Inr (v, trunc n s') else Inl PrematureEof)"
  shows "cuts f"
  using assms unfolding cuts_def by blast

lemma cutsD:
  assumes "cuts f" and "f s = Inr (v, s')"
  shows "m_position s \<le> m_position s'" and "m_size s' = m_size s"
    and "m_position s \<le> n \<Longrightarrow> n \<le> m_size s \<Longrightarrow>
           f (trunc n s) = (if m_position s' \<le> n then Inr (v, trunc n s') else Inl PrematureEof)"
  using assms unfolding cuts_def by blast+

text \<open>Every reader cuts: the cursor does, and sequencing, branching and loops keep it.\<close>

lemma cuts_read: "cuts (read m)"
  by (rule cutsI) (auto simp: read_def trunc_def m_size_def min_def drop_take split: if_splits)

lemma cuts_return: "cuts (\<lambda>s. Inr (v, s))"
  by (rule cutsI) auto

lemma cuts_error: "cuts (\<lambda>s. Inl e)"
  by (rule cutsI) auto

lemma cuts_bind:
  assumes "cuts f" and "\<And>x. cuts (g x)"
  shows "cuts (\<lambda>s. case f s of Inl e \<Rightarrow> Inl e | Inr (x, s1) \<Rightarrow> g x s1)"
proof (rule cutsI)
  fix s v s'
  assume a: "(case f s of Inl e \<Rightarrow> Inl e | Inr (x, s1) \<Rightarrow> g x s1) = Inr (v, s')"
  then obtain x s1 where f: "f s = Inr (x, s1)" and g: "g x s1 = Inr (v, s')"
    by (auto split: sum.splits)
  note F = cutsD [OF assms(1) f] and G = cutsD [OF assms(2) g]
  from F(1,2) G(1,2) show "m_position s \<le> m_position s' \<and> m_size s' = m_size s" by simp
  fix n assume n: "m_position s \<le> n" "n \<le> m_size s"
  show "(case f (trunc n s) of Inl e \<Rightarrow> Inl e | Inr (x, s1) \<Rightarrow> g x s1) =
      (if m_position s' \<le> n then Inr (v, trunc n s') else Inl PrematureEof)"
  proof (cases "m_position s1 \<le> n")
    case True
    with F(3) [OF n] G(3) [of n] n F(2) show ?thesis by simp
  next
    case False
    with F(3) [OF n] G(1) show ?thesis by simp
  qed
qed

lemma cuts_if: "cuts f \<Longrightarrow> cuts g \<Longrightarrow> cuts (\<lambda>s. if c then f s else g s)"
  by (cases c) simp_all

lemma cuts_read_big_endian: "cuts (read_big_endian_unsigned_int m :: _ \<Rightarrow> error + ('a::len word \<times> _))"
  unfolding read_big_endian_unsigned_int_def [abs_def]
  by (intro cuts_bind cuts_read cuts_return)

lemma cuts_read_string: "cuts read_string"
  unfolding read_string_def [abs_def]
  by (intro cuts_bind cuts_read cuts_read_big_endian)

lemma cuts_read_byte_array_tag: "cuts read_byte_array_tag"
  unfolding read_byte_array_tag_def [abs_def]
  by (intro cuts_bind cuts_read cuts_read_big_endian cuts_return)

lemma cuts_read_int_array_loop: "cuts (read_int_array_loop n vs)"
proof (induction n arbitrary: vs)
  case 0
  have "read_int_array_loop 0 vs = (\<lambda>s. Inr (vs, s))" by (rule ext) simp
  then show ?case by (simp only: cuts_return)
next
  case (Suc n)
  have "read_int_array_loop (Suc n) vs =
      (\<lambda>s. case read_big_endian_unsigned_int 4 s of
              Inl e \<Rightarrow> Inl e
            | Inr (encoded_int, s') \<Rightarrow>
                read_int_array_loop n (vs @ [twos_complement_decode_int_array encoded_int]) s')"
    by (rule ext) simp
  then show ?case by (simp only:) (intro cuts_bind cuts_read_big_endian Suc.IH)
qed

lemma cuts_read_int_array_tag: "cuts read_int_array_tag"
  unfolding read_int_array_tag_def [abs_def]
  by (intro cuts_bind cuts_read_big_endian cuts_read_int_array_loop cuts_return)

lemma cuts_read_simple_tag: "cuts (\<lambda>s. read_simple_tag s k)"
  unfolding read_simple_tag_def [abs_def] read_float_tag_def read_string_tag_def [abs_def]
  by (intro cuts_if cuts_bind cuts_read cuts_read_big_endian cuts_return cuts_error
      cuts_read_byte_array_tag cuts_read_string cuts_read_int_array_tag)


lemma cuts_case_pure:
  assumes "\<And>x. cuts (h x)"
  shows "cuts (\<lambda>s. case c of Inl e \<Rightarrow> Inl e | Inr x \<Rightarrow> h x s)"
  using assms by (cases c) (simp_all add: cuts_error)

lemma cuts_read_list_elements: "cuts (read_list_elements n k vs)"
proof (induction n arbitrary: vs)
  case 0
  have "read_list_elements 0 k vs = (\<lambda>s. Inr (vs, s))" by (rule ext) simp
  then show ?case by (simp only: cuts_return)
next
  case (Suc n)
  have "read_list_elements (Suc n) k vs =
      (\<lambda>s. case read_simple_tag s k of
              Inl e \<Rightarrow> Inl e
            | Inr (t, s') \<Rightarrow>
                (if dynamic_cast_ok k t then read_list_elements n k (vs @ [t]) s'
                 else Inl (LogicError AddTagTypeMismatch)))"
    by (rule ext) simp
  then show ?case
    by (simp only:) (intro cuts_bind cuts_if cuts_read_simple_tag Suc.IH cuts_error)
qed

lemma cuts_new_read_state_for: "cuts (\<lambda>s. new_read_state_for s k)"
  unfolding new_read_state_for_def [abs_def]
  by (intro cuts_if cuts_bind cuts_case_pure cuts_read_big_endian cuts_return cuts_error)

text \<open>The engine step and the drive loop as readers, the stack and the root slot as result.\<close>

definition as_reader :: "error + engine \<Rightarrow> error + ((IoReadState \<times> Tag option) \<times> MemoryInputStream)" where
  "as_reader r = (case r of Inl e \<Rightarrow> Inl e | Inr (s, io_state, root) \<Rightarrow> Inr ((io_state, root), s))"

lemma continue_read_compound_reader:
  "as_reader (continue_read (s, ReadCompoundTagState vs next_tag_name # below, root)) =
     (case read_big_endian_unsigned_int 1 s of
        Inl e \<Rightarrow> Inl e
      | Inr (tag_type_id :: 8 word, s1) \<Rightarrow>
          (if tag_type_id = TAG_TYPE_END then
             (case finish_tag (CompoundTag vs) (ReadCompoundTagState vs next_tag_name # below) root of
                Inl e \<Rightarrow> Inl e
              | Inr p \<Rightarrow> Inr (p, s1))
           else
             (case read_string s1 of
                Inl e \<Rightarrow> Inl e
              | Inr (nm, s2) \<Rightarrow>
                  (if tag_type_id = TAG_TYPE_COMPOUND \<or> tag_type_id = TAG_TYPE_LIST then
                     (case new_read_state_for s2 tag_type_id of
                        Inl e \<Rightarrow> Inl e
                      | Inr (st, s3) \<Rightarrow> Inr ((st # ReadCompoundTagState vs nm # below, root), s3))
                   else
                     (case read_simple_tag s2 tag_type_id of
                        Inl e \<Rightarrow> Inl e
                      | Inr (t, s3) \<Rightarrow>
                          Inr ((ReadCompoundTagState (values_insert vs nm t) nm # below, root), s3))))))"
  by (simp add: as_reader_def split: sum.splits prod.splits)

lemma continue_read_list_reader:
  "as_reader (continue_read (s, ReadListTagState type_id vs remaining_reads # below, root)) =
     (if type_id = TAG_TYPE_COMPOUND \<or> type_id = TAG_TYPE_LIST then
        (if remaining_reads = 0 then
           (case finish_tag (ListTag type_id vs) (ReadListTagState type_id vs remaining_reads # below) root of
              Inl e \<Rightarrow> Inl e
            | Inr p \<Rightarrow> Inr (p, s))
         else
           (case new_read_state_for s type_id of
              Inl e \<Rightarrow> Inl e
            | Inr (st, s1) \<Rightarrow>
                Inr ((st # ReadListTagState type_id vs (remaining_reads - 1) # below, root), s1)))
      else
        (case read_list_elements remaining_reads type_id vs s of
           Inl e \<Rightarrow> Inl e
         | Inr (vs', s1) \<Rightarrow>
             (case finish_tag (ListTag type_id vs')
                     (ReadListTagState type_id vs' remaining_reads # below) root of
                Inl e \<Rightarrow> Inl e
              | Inr p \<Rightarrow> Inr (p, s1))))"
  by (simp add: as_reader_def split: sum.splits prod.splits)

lemma cuts_continue_read: "cuts (\<lambda>s. as_reader (continue_read (s, io_state, root)))"
proof (cases io_state)
  case Nil
  then show ?thesis by (simp add: as_reader_def cuts_error)
next
  case (Cons f below)
  show ?thesis
  proof (cases f)
    case ReadRootTagState
    with Cons show ?thesis by (simp add: as_reader_def cuts_return)
  next
    case (ReadCompoundTagState vs next_tag_name)
    show ?thesis
      unfolding Cons ReadCompoundTagState continue_read_compound_reader
      by (intro cuts_bind cuts_if cuts_case_pure cuts_read_big_endian cuts_read_string
          cuts_new_read_state_for cuts_read_simple_tag cuts_return)
  next
    case (ReadListTagState type_id vs remaining_reads)
    show ?thesis
      unfolding Cons ReadListTagState continue_read_list_reader
      by (intro cuts_bind cuts_if cuts_case_pure cuts_read_list_elements
          cuts_new_read_state_for cuts_return)
  qed
qed


lemma process_read_state_cut:
  "process_read_state st = Inr (s', io_state', root') \<Longrightarrow>
     m_position (fst st) \<le> m_position s' \<and> m_size s' = m_size (fst st) \<and>
     (\<forall>n. m_position (fst st) \<le> n \<and> n \<le> m_size (fst st) \<longrightarrow>
        process_read_state (trunc n (fst st), snd st) =
          (if m_position s' \<le> n then Inr (trunc n s', io_state', root') else Inl PrematureEof))"
proof (induction st rule: process_read_state.induct)
  case (1 s io_state root)
  show ?case
  proof (cases "io_state = []")
    case True
    with "1.prems" show ?thesis by (simp add: process_read_state.simps)
  next
    case False
    with "1.prems" obtain s1 io1 root1 where
      c: "continue_read (s, io_state, root) = Inr (s1, io1, root1)"
      and p: "process_read_state (s1, io1, root1) = Inr (s', io_state', root')"
      by (auto simp: process_read_state.simps [of s io_state root] split: sum.splits)
    from c have "as_reader (continue_read (s, io_state, root)) = Inr ((io1, root1), s1)"
      by (simp add: as_reader_def)
    note C = cutsD [OF cuts_continue_read this]
    from "1.IH" [OF False c p] have
      I: "m_position s1 \<le> m_position s'" "m_size s' = m_size s1"
      "\<And>n. m_position s1 \<le> n \<Longrightarrow> n \<le> m_size s1 \<Longrightarrow>
         process_read_state (trunc n s1, io1, root1) =
           (if m_position s' \<le> n then Inr (trunc n s', io_state', root') else Inl PrematureEof)"
      by simp_all
    have "process_read_state (trunc n s, io_state, root) =
        (if m_position s' \<le> n then Inr (trunc n s', io_state', root') else Inl PrematureEof)"
      if n: "m_position s \<le> n" "n \<le> m_size s" for n
    proof (cases "m_position s1 \<le> n")
      case True
      with C(3) [OF n] have "continue_read (trunc n s, io_state, root) = Inr (trunc n s1, io1, root1)"
        by (auto simp: as_reader_def split: sum.splits)
      with False I(3) [OF True] n C(2) show ?thesis
        by (simp add: process_read_state.simps [of "trunc n s" io_state root])
    next
      case nle: False
      with C(3) [OF n] have "continue_read (trunc n s, io_state, root) = Inl PrematureEof"
        by (auto simp: as_reader_def split: sum.splits)
      with False nle I(1) show ?thesis
        by (simp add: process_read_state.simps [of "trunc n s" io_state root])
    qed
    with C(1,2) I(1,2) show ?thesis by simp
  qed
qed

lemma cuts_process_read_state: "cuts (\<lambda>s. as_reader (process_read_state (s, io_state, root)))"
proof (rule cutsI)
  fix s v s'
  assume "as_reader (process_read_state (s, io_state, root)) = Inr (v, s')"
  then have p: "process_read_state (s, io_state, root) = Inr (s', fst v, snd v)"
    by (auto simp: as_reader_def split: sum.splits)
  from process_read_state_cut [OF p]
  show "m_position s \<le> m_position s' \<and> m_size s' = m_size s" by simp
  fix n assume "m_position s \<le> n" "n \<le> m_size s"
  with process_read_state_cut [OF p]
  show "as_reader (process_read_state (trunc n s, io_state, root)) =
      (if m_position s' \<le> n then Inr (v, trunc n s') else Inl PrematureEof)"
    by (simp add: as_reader_def)
qed

lemma read_nbt_reader:
  "read_nbt s =
     (case read_big_endian_unsigned_int 1 s of
        Inl e \<Rightarrow> Inl e
      | Inr (tag_type_id :: 8 word, s1) \<Rightarrow>
          (case read_string s1 of
             Inl e \<Rightarrow> Inl e
           | Inr (nm, s2) \<Rightarrow>
               (if tag_type_id = TAG_TYPE_LIST \<or> tag_type_id = TAG_TYPE_COMPOUND then
                  (case new_read_state_for s2 tag_type_id of
                     Inl e \<Rightarrow> Inl e
                   | Inr (st, s3) \<Rightarrow>
                       (case as_reader (process_read_state (s3, [st, ReadRootTagState], None)) of
                          Inl e \<Rightarrow> Inl e
                        | Inr (p, s4) \<Rightarrow> Inr (\<lparr>name = nm, tag = snd p\<rparr>, s4)))
                else Inr (\<lparr>name = nm, tag = None\<rparr>, s2))))"
  by (simp add: read_nbt_def as_reader_def split: sum.splits prod.splits)

lemma cuts_read_nbt: "cuts read_nbt"
  unfolding read_nbt_reader [abs_def]
  by (intro cuts_bind cuts_if cuts_read_big_endian cuts_read_string cuts_new_read_state_for
      cuts_process_read_state cuts_return)

lemma trunc_memory_input_stream: "trunc n (memory_input_stream d) = memory_input_stream (take n d)"
  by (simp add: trunc_def memory_input_stream_def)

text \<open>
  So on a strict prefix of a stream that \<^verbatim>\<open>read_nbt\<close> decodes to its last byte, the
  exception raised is \<^verbatim>\<open>PrematureEof\<close>: the cut run does what the full run did until a
  read finds too few bytes.
\<close>

lemma read_nbt_truncated:
  assumes "read_nbt (memory_input_stream d) = Inr (r, s')" and "m_position s' = length d"
    and "n < length d"
  shows "read_nbt (memory_input_stream (take n d)) = Inl PrematureEof"
  using cutsD(3) [OF cuts_read_nbt assms(1), of n] assms(2,3)
  by (simp add: trunc_memory_input_stream) (simp add: memory_input_stream_def m_size_def)

section \<open>Unwinding a truncated decode\<close>

text \<open>
  An outcome \<open>Inl e\<close> of the reader is the exception it raises. When that exception
  leaves \<^verbatim>\<open>process_read_state\<close>, \<^verbatim>\<open>read_nbt\<close> is unwound and its \<^verbatim>\<open>io_state\<close> destroyed with
  the frames it holds. A compound frame owns the \<^verbatim>\<open>CompoundTag\<close> it is filling (\<^verbatim>\<open>m_tag\<close>)
  and a list frame its \<^verbatim>\<open>ListTag\<close> (\<^verbatim>\<open>m_list_tag\<close>); a container tag owns its children
  through \<^verbatim>\<open>std::unique_ptr\<close>, so its destructor calls the destructors of the children,
  which call those of theirs. The frames live on the heap; these calls nest on the
  native stack, which the embedding does not have. \<open>destructor_depth t\<close> is the number
  of destructor calls nested in one another while \<open>t\<close> is destroyed.
\<close>

fun destructor_depth :: "Tag \<Rightarrow> nat" where
  "destructor_depth (ListTag type_id vs) = Suc (fold max (map destructor_depth vs) 0)"
| "destructor_depth (CompoundTag vs) =
     Suc (fold max (map (\<lambda>e. destructor_depth (snd e)) vs) 0)"
| "destructor_depth _ = 1"

text \<open>
  \<open>nested_compound n\<close> is a Compound that holds, under the empty name, a Compound that
  holds a Compound, and so on, \<open>n\<close> times, down to an empty one. \<open>truncated_nest n\<close> is the
  encoding of \<open>nested_compound (Suc n)\<close> as a root with the empty name, without its last
  byte, which is the End byte that closes the root.
\<close>

fun nested_compound :: "nat \<Rightarrow> Tag" where
  "nested_compound 0 = CompoundTag []"
| "nested_compound (Suc n) = CompoundTag [([], nested_compound n)]"

definition truncated_nest :: "nat \<Rightarrow> byte list" where
  "truncated_nest n = butlast (wire_stream [] (nested_compound (Suc n)))"

lemma tag_type_of_nested [simp]: "tag_type_of (nested_compound k) = TAG_TYPE_COMPOUND"
  by (cases k) simp_all

lemma wire_payload_nested_Suc:
  "wire_payload (nested_compound (Suc k)) = 10 # 0 # 0 # wire_payload (nested_compound k) @ [0]"
  by (simp add: wire_string_def TAG_TYPE_defs numeral_2_eq_2)

lemma length_wire_payload_nested: "length (wire_payload (nested_compound k)) = 4 * k + 1"
proof (induction k)
  case 0
  show ?case by simp
next
  case (Suc k)
  then show ?case by (simp only: wire_payload_nested_Suc) simp
qed

lemma destructor_depth_nested: "destructor_depth (nested_compound k) = Suc k"
  by (induction k) simp_all

lemma well_formed_nested: "well_formed (nested_compound k)"
  by (induction k) simp_all

lemma distinct_names_nested: "distinct_names (nested_compound k)"
  by (induction k) simp_all

lemma truncated_nest_eq:
  "truncated_nest n = 10 # 0 # 0 # 10 # 0 # 0 # wire_payload (nested_compound n)"
proof -
  have "wire_stream [] (nested_compound (Suc n)) =
      (10 # 0 # 0 # 10 # 0 # 0 # wire_payload (nested_compound n)) @ [0]"
    by (simp only: wire_stream_def wire_payload_nested_Suc tag_type_of_nested)
       (simp add: wire_string_def TAG_TYPE_defs numeral_2_eq_2)
  then show ?thesis
    by (simp only: truncated_nest_def butlast_snoc)
qed

text \<open>
  The loop on the payload of \<open>nested_compound k\<close>, from a fresh compound frame on top of
  the compound frame of its parent: after \<open>2 * k + 1\<close> activations the value has been
  delivered to the parent, and the cursor stands behind the payload.
\<close>

lemma nested_compound_steps:
  "remaining s = wire_payload (nested_compound k) @ rest \<Longrightarrow>
   (drive ^^ (2 * k + 1))
      (Inr (s, ReadCompoundTagState [] [] # ReadCompoundTagState vs nm # below, root)) =
     Inr (advance (4 * k + 1) s,
          ReadCompoundTagState (values_insert vs nm (nested_compound k)) nm # below, root)"
proof (induction k arbitrary: s rest vs nm below)
  case 0
  then have "remaining s = 0 # rest" by (simp add: TAG_TYPE_defs)
  from read_byte [OF this] show ?case
    by (simp add: drive_def TAG_TYPE_defs)
next
  case (Suc k)
  let ?C = "ReadCompoundTagState [] []"
  let ?P = "ReadCompoundTagState vs nm"
  let ?F = "ReadCompoundTagState [([], nested_compound k)] []"
  from Suc.prems have
    r: "remaining s = 10 # 0 # 0 # [] @ (wire_payload (nested_compound k) @ 0 # rest)"
    by (simp only: wire_payload_nested_Suc) simp
  from read_entry_header [OF r] have
    h: "read_big_endian_unsigned_int (Suc 0) s = Inr (10 :: 8 word, advance 1 s)"
       "read_string (advance 1 s) = Inr ([], advance 3 s)"
    by simp_all
  have 1: "drive (Inr (s, ?C # ?P # below, root)) = Inr (advance 3 s, ?C # ?C # ?P # below, root)"
    using h by (simp add: drive_def TAG_TYPE_defs new_read_state_for_def)
  have "remaining (advance 3 s) = wire_payload (nested_compound k) @ 0 # rest"
    using r by simp
  from Suc.IH [OF this, of "[]" "[]" "?P # below"]
  have 2: "(drive ^^ (2 * k + 1)) (Inr (advance 3 s, ?C # ?C # ?P # below, root)) =
      Inr (advance (4 * k + 4) s, ?F # ?P # below, root)"
    by (simp add: values_insert_def add.commute)
  have e: "4 * k + 4 = Suc (Suc (Suc (length (wire_payload (nested_compound k)))))"
    by (simp add: length_wire_payload_nested)
  have "remaining (advance (4 * k + 4) s) = 0 # rest"
    using r by (simp only: e remaining_advance) simp
  from read_byte [OF this]
  have 3: "drive (Inr (advance (4 * k + 4) s, ?F # ?P # below, root)) =
      Inr (advance (4 * Suc k + 1) s,
           ReadCompoundTagState (values_insert vs nm (nested_compound (Suc k))) nm # below, root)"
    by (simp add: drive_def TAG_TYPE_defs add.commute)
  have "(drive ^^ (2 * Suc k + 1)) (Inr (s, ?C # ?P # below, root)) =
      drive ((drive ^^ (2 * k + 1)) (drive (Inr (s, ?C # ?P # below, root))))"
    by (simp add: funpow_swap1)
  with 1 2 3 show ?case by simp
qed

lemma read_end_of_data:
  "remaining s = [] \<Longrightarrow>
   continue_read (s, ReadCompoundTagState vs nm # below, root) = Inl PrematureEof"
  by (simp add: read_big_endian_unsigned_int_def read_eq)

text \<open>
  Claim C4 says that decoding a strict prefix of a valid stream fails with
  \<^verbatim>\<open>PrematureEof\<close> and never crashes. On deep nesting the code does not keep the second
  half. For every \<open>n\<close>, \<open>nested_compound (Suc n)\<close> is well formed and \<^verbatim>\<open>read_nbt\<close> decodes its
  encoding to the last byte. On that encoding without its last byte, \<open>4 * n + 7\<close> bytes
  long, \<^verbatim>\<open>read_nbt\<close> reads the root header and starts the loop on the frame of the root;
  after \<open>2 * n + 2\<close> activations the input is used up and the stack holds the frame of
  the root with the finished \<open>nested_compound n\<close> in its mapping; the next activation
  raises \<^verbatim>\<open>PrematureEof\<close>, and the destruction of that frame while the exception unwinds
  nests \<open>n + 2\<close> destructor calls on the native stack: a depth that grows with the
  input, which the explicit frame stack was there to avoid.
\<close>

theorem truncated_nest_unwinds_deep_tag:
  "(let s = memory_input_stream (truncated_nest n);
        thrown = (advance (4 * n + 7) s,
                  [ReadCompoundTagState [([], nested_compound n)] [], ReadRootTagState], None)
    in well_formed (nested_compound (Suc n)) \<and> container (nested_compound (Suc n))
       \<and> read_nbt (memory_input_stream (wire_stream [] (nested_compound (Suc n)))) =
           Inr (\<lparr>name = [], tag = Some (nested_compound (Suc n))\<rparr>,
                \<lparr>m_data = wire_stream [] (nested_compound (Suc n)), m_position = 4 * n + 8\<rparr>)
       \<and> length (truncated_nest n) = 4 * n + 7
       \<and> read_big_endian_unsigned_int 1 s = Inr (TAG_TYPE_COMPOUND, advance 1 s)
       \<and> read_string (advance 1 s) = Inr ([], advance 3 s)
       \<and> new_read_state_for (advance 3 s) TAG_TYPE_COMPOUND =
           Inr (ReadCompoundTagState [] [], advance 3 s)
       \<and> (drive ^^ (2 * n + 2))
             (Inr (advance 3 s, [ReadCompoundTagState [] [], ReadRootTagState], None)) =
           Inr thrown
       \<and> continue_read thrown = Inl PrematureEof
       \<and> destructor_depth (CompoundTag [([], nested_compound n)]) = n + 2)"
proof -
  let ?t = "nested_compound (Suc n)"
  let ?s = "memory_input_stream (truncated_nest n)"
  let ?C = "ReadCompoundTagState [] []"
  let ?F = "ReadCompoundTagState [([], nested_compound n)] []"
  have wf: "well_formed ?t" by (rule well_formed_nested)
  have co: "container ?t" by (simp only: container_def tag_type_of_nested) simp
  have len: "length (wire_stream [] ?t) = 4 * n + 8"
    by (simp only: wire_stream_def tag_type_of_nested)
       (simp add: wire_string_def length_wire_payload_nested
          del: nested_compound.simps wire_payload.simps)
  have full: "read_nbt (memory_input_stream (wire_stream [] ?t)) =
      Inr (\<lparr>name = [], tag = Some ?t\<rparr>, \<lparr>m_data = wire_stream [] ?t, m_position = 4 * n + 8\<rparr>)"
    using read_nbt_wire [OF wf co, of "[]" "[]"]
      decoded_distinct [OF distinct_names_nested, of "Suc n"]
    by (simp only: len append_Nil2) simp
  have tl: "length (truncated_nest n) = 4 * n + 7"
    by (simp add: truncated_nest_eq length_wire_payload_nested)
  have r: "remaining ?s = 10 # 0 # 0 # [] @ (10 # 0 # 0 # wire_payload (nested_compound n))"
    by (simp add: truncated_nest_eq)
  from read_entry_header [OF r] have
    h: "read_big_endian_unsigned_int (Suc 0) ?s = Inr (10 :: 8 word, advance 1 ?s)"
       "read_string (advance 1 ?s) = Inr ([], advance 3 ?s)"
    by simp_all
  have n: "new_read_state_for (advance 3 ?s) TAG_TYPE_COMPOUND = Inr (?C, advance 3 ?s)"
    by (simp add: new_read_state_for_def)
  have r3: "remaining (advance 3 ?s) = 10 # 0 # 0 # [] @ (wire_payload (nested_compound n))"
    using r by simp
  from read_entry_header [OF r3] have
    h3: "read_big_endian_unsigned_int (Suc 0) (advance 3 ?s) = Inr (10 :: 8 word, advance 4 ?s)"
        "read_string (advance 4 ?s) = Inr ([], advance 6 ?s)"
    by simp_all
  have 1: "drive (Inr (advance 3 ?s, [?C, ReadRootTagState], None)) =
      Inr (advance 6 ?s, [?C, ?C, ReadRootTagState], None)"
    using h3 by (simp add: drive_def TAG_TYPE_defs new_read_state_for_def)
  have "remaining (advance 6 ?s) = wire_payload (nested_compound n) @ []"
    using r by simp
  from nested_compound_steps [OF this, of "[]" "[]" "[ReadRootTagState]" None]
  have 2: "(drive ^^ (2 * n + 1)) (Inr (advance 6 ?s, [?C, ?C, ReadRootTagState], None)) =
      Inr (advance (4 * n + 7) ?s, [?F, ReadRootTagState], None)"
    by (simp add: values_insert_def add.commute)
  have "(drive ^^ (2 * n + 2)) (Inr (advance 3 ?s, [?C, ReadRootTagState], None)) =
      (drive ^^ (2 * n + 1)) (drive (Inr (advance 3 ?s, [?C, ReadRootTagState], None)))"
    by (simp add: funpow_swap1)
  with 1 2 have d: "(drive ^^ (2 * n + 2)) (Inr (advance 3 ?s, [?C, ReadRootTagState], None)) =
      Inr (advance (4 * n + 7) ?s, [?F, ReadRootTagState], None)"
    by simp
  have "remaining (advance (4 * n + 7) ?s) = []"
    by (simp add: tl)
  from read_end_of_data [OF this]
  have c: "continue_read (advance (4 * n + 7) ?s, [?F, ReadRootTagState], None) = Inl PrematureEof" .
  have dd: "destructor_depth (CompoundTag [([], nested_compound n)]) = n + 2"
    by (simp add: destructor_depth_nested)
  from wf co full tl h n d c dd show ?thesis
    by (simp only: Let_def TAG_TYPE_COMPOUND_def One_nat_def)
qed

end
